theory Spec2Isabelle
  imports Main
begin

section \<open>update-color-tokens.py: the rewriting of hex colours into CSS tokens\<close>

text \<open>
  A file's text is a \<open>string\<close>: the characters that \<open>f.read()\<close> returns. Every
  character the pattern names (the two quote characters, the newline, \<open>#\<close>, the hex
  digits) is ASCII, and a character outside ASCII is matched by \<open>.\<close> alone.
\<close>

subsection \<open>The mapping table\<close>

text \<open>\<open>COLOR_MAPPINGS\<close>, lines 12 to 26: the pairs of hex literal and token, in table order.\<close>

definition COLOR_MAPPINGS :: "(string \<times> string) list" where
  "COLOR_MAPPINGS =
    [(''#1e1e1e'', ''var(--color-bg-primary)''),
     (''#252526'', ''var(--color-bg-secondary)''),
     (''#2a2d2e'', ''var(--color-bg-tertiary)''),
     (''#3e3e42'', ''var(--color-border)''),
     (''#cccccc'', ''var(--color-text-primary)''),
     (''#858585'', ''var(--color-text-muted)''),
     (''#808080'', ''var(--color-text-muted)''),
     (''#aaaaaa'', ''var(--color-text-secondary)''),
     (''#007acc'', ''var(--color-accent-green)''),
     (''#0e639c'', ''var(--color-accent-green)''),
     (''#4fc1ff'', ''var(--color-accent-teal)''),
     (''#ffa726'', ''var(--color-accent-yellow)''),
     (''#f14c4c'', ''var(--color-accent-coral)'')]"

subsection \<open>The pattern \<open>(["'].*?)(hex)(.*?["'])\<close> under \<open>re.IGNORECASE\<close>\<close>

text \<open>The character class \<open>["']\<close>: a double quote or a single quote (code point 39).\<close>

definition is_quote :: "char \<Rightarrow> bool" where
  "is_quote c = (c = CHR ''\"'' \<or> c = CHR 0x27)"

text \<open>\<open>.\<close> without \<open>re.DOTALL\<close>: any character but the newline (code point 10).\<close>

definition dot :: "char \<Rightarrow> bool" where
  "dot c = (c \<noteq> CHR 0x0A)"

text \<open>
  \<open>re.IGNORECASE\<close>: two characters match when their lower-case forms agree. The hex
  literals hold \<open>#\<close>, digits and the letters a to f, which have no case partner
  outside ASCII, so the lower-case form of the ASCII letters is all that matters. An
  ASCII capital is a code point from 0x41 to 0x5A: the bits 7 to 5 are 010 and the low
  five bits count from 1 to 26; its lower-case form has bit 5 set (32 added).
\<close>

fun lower :: "char \<Rightarrow> char" where
  "lower (Char b0 b1 b2 b3 b4 b5 b6 b7) =
     (if \<not> b7 \<and> b6 \<and> \<not> b5 \<and> (b0 \<or> b1 \<or> b2 \<or> b3 \<or> b4) \<and>
         \<not> (b4 \<and> b3 \<and> (b2 \<or> b1 \<and> b0))
      then Char b0 b1 b2 b3 b4 True b6 b7
      else Char b0 b1 b2 b3 b4 b5 b6 b7)"

text \<open>
  Group 2, the hex literal, matched at the head of the text one character after the
  other: the text matched and the text left, or \<open>None\<close>.
\<close>

fun literal :: "string \<Rightarrow> string \<Rightarrow> (string \<times> string) option" where
  "literal [] s = Some ([], s)"
| "literal (p # ps) [] = None"
| "literal (p # ps) (c # cs) =
     (if lower c = lower p
      then (case literal ps cs of None \<Rightarrow> None | Some (m, r) \<Rightarrow> Some (c # m, r))
      else None)"

text \<open>
  Group 3, \<open>(.*?["'])\<close>: the lazy star tries the quote first and takes one more
  character (never a newline) only when the quote does not follow. The result is the
  text of the group and the text left.
\<close>

fun close_span :: "string \<Rightarrow> (string \<times> string) option" where
  "close_span [] = None"
| "close_span (c # cs) =
     (if is_quote c then Some ([c], cs)
      else if dot c
      then (case close_span cs of None \<Rightarrow> None | Some (g, r) \<Rightarrow> Some (c # g, r))
      else None)"

text \<open>
  Groups 2 and 3 tried at the head of the text: the literal, then \<open>(.*?["'])\<close>. The
  result is the literal as matched, the text of group 3 and the text left.
\<close>

definition literal_then_close :: "string \<Rightarrow> string \<Rightarrow> (string \<times> string \<times> string) option" where
  "literal_then_close hex s =
     (case literal hex s of
        None \<Rightarrow> None
      | Some (m, r) \<Rightarrow>
          (case close_span r of None \<Rightarrow> None | Some (g3, rest) \<Rightarrow> Some (m, g3, rest)))"

text \<open>
  The lazy star of group 1 followed by groups 2 and 3: at each length of the star, from
  zero upwards, the literal and then group 3 are tried; when they fail the matcher
  backtracks and the star takes one more character (never a newline). The result is the
  text of the star, the literal as matched, the text of group 3 and the text left.
\<close>

fun open_span :: "string \<Rightarrow> string \<Rightarrow> (string \<times> string \<times> string \<times> string) option" where
  "open_span hex [] =
     (case literal_then_close hex [] of
        None \<Rightarrow> None
      | Some (m, g3, rest) \<Rightarrow> Some ([], m, g3, rest))"
| "open_span hex (c # cs) =
     (case literal_then_close hex (c # cs) of
        Some (m, g3, rest) \<Rightarrow> Some ([], m, g3, rest)
      | None \<Rightarrow>
          (if dot c
           then (case open_span hex cs of
                   None \<Rightarrow> None
                 | Some (g, m, g3, rest) \<Rightarrow> Some (c # g, m, g3, rest))
           else None))"

text \<open>
  The whole pattern tried at the head of the text: the opening \<open>["']\<close>, then the rest.
  The result is group 1, group 2, group 3 and the text after the match.
\<close>

fun match_here :: "string \<Rightarrow> string \<Rightarrow> (string \<times> string \<times> string \<times> string) option" where
  "match_here hex [] = None"
| "match_here hex (c # cs) =
     (if is_quote c
      then (case open_span hex cs of
              None \<Rightarrow> None
            | Some (g, m, g3, rest) \<Rightarrow> Some (c # g, m, g3, rest))
      else None)"

lemma literal_length: "literal hex s = Some (m, r) \<Longrightarrow> length r \<le> length s"
  by (induction hex s arbitrary: m r rule: literal.induct)
     (auto split: if_splits option.splits)

lemma close_span_length: "close_span s = Some (g, r) \<Longrightarrow> length r < length s"
  by (induction s arbitrary: g r) (auto split: if_splits option.splits)

lemma literal_then_close_length:
  "literal_then_close hex s = Some (m, g3, r) \<Longrightarrow> length r < length s"
  by (auto simp: literal_then_close_def split: option.splits
      dest!: literal_length close_span_length)

lemma open_span_length: "open_span hex s = Some (g, m, g3, r) \<Longrightarrow> length r < length s + 1"
proof (induction s arbitrary: g m g3 r)
  case Nil
  then show ?case
    by (auto split: option.splits dest!: literal_then_close_length)
next
  case (Cons c cs)
  then show ?case
    by (fastforce split: option.splits if_splits dest!: literal_then_close_length)
qed

lemma match_here_length: "match_here hex s = Some (g, m, g3, r) \<Longrightarrow> length r < length s"
  by (cases s) (auto split: if_splits option.splits dest!: open_span_length)

text \<open>
  \<open>re.sub(pattern, r'\<backslash>1token\<backslash>3', content)\<close>: the text is scanned from the left; where
  the pattern matches, groups 1 and 3 are kept with the token between them and the scan
  goes on after the match; elsewhere the character is copied. A match holds two quotes
  at least, so it is never empty.
\<close>

function re_sub :: "string \<Rightarrow> string \<Rightarrow> string \<Rightarrow> string" where
  "re_sub hex token [] = []"
| "re_sub hex token (c # cs) =
     (case match_here hex (c # cs) of
        None \<Rightarrow> c # re_sub hex token cs
      | Some (g1, m, g3, rest) \<Rightarrow> g1 @ token @ g3 @ re_sub hex token rest)"
  by pat_completeness auto
termination
  apply (relation "measure (\<lambda>(hex, token, s). length s)")
    apply simp
   apply simp
  apply (clarsimp simp del: match_here.simps)
  apply (drule match_here_length)
  apply simp
  done

text \<open>Lines 37 to 44: every rule of the table in turn, each on the result of the one before.\<close>

definition apply_mappings :: "(string \<times> string) list \<Rightarrow> string \<Rightarrow> string" where
  "apply_mappings table content = foldl (\<lambda>content (hex_color, token). re_sub hex_color token content) content table"

text \<open>
  The literal occurs somewhere in the text, in any letter case: group 2 matches at some
  position.
\<close>

fun occurs :: "string \<Rightarrow> string \<Rightarrow> bool" where
  "occurs hex [] = (literal hex [] \<noteq> None)"
| "occurs hex (c # cs) = (literal hex (c # cs) \<noteq> None \<or> occurs hex cs)"

subsection \<open>Paths\<close>

text \<open>
  A path is the string that \<open>str(path)\<close> gives. \<open>joinpath\<close> is the operator \<open>/\<close> of
  \<open>pathlib\<close> on a directory and a relative path: the current directory \<open>.\<close> adds
  nothing and the root \<open>/\<close> adds no second separator.
\<close>

definition joinpath :: "string \<Rightarrow> string \<Rightarrow> string" where
  "joinpath d rel =
     (if d = ''.'' \<or> d = [] then rel
      else if d = ''/'' then d @ rel
      else d @ ''/'' @ rel)"

text \<open>\<open>str.split('/')\<close>: the segments between the separators.\<close>

fun segments :: "string \<Rightarrow> string list" where
  "segments [] = [[]]"
| "segments (c # cs) =
     (if c = CHR ''/'' then [] # segments cs
      else (case segments cs of [] \<Rightarrow> [[c]] | seg # segs \<Rightarrow> (c # seg) # segs))"

text \<open>
  \<open>PurePath.parts\<close>: the root, when the path is absolute, and then the segments; empty
  segments and single dots are dropped when a path is parsed.
\<close>

definition parts :: "string \<Rightarrow> string list" where
  "parts p =
     (if take 1 p = ''/'' then [''/''] else []) @
     filter (\<lambda>seg. seg \<noteq> [] \<and> seg \<noteq> ''.'') (segments p)"

text \<open>\<open>PurePath.name\<close>: the last segment, empty for the root and for the empty path.\<close>

definition name :: "string \<Rightarrow> string" where
  "name p =
     (case filter (\<lambda>seg. seg \<noteq> [] \<and> seg \<noteq> ''.'') (segments p) of
        [] \<Rightarrow> []
      | seg # segs \<Rightarrow> last (seg # segs))"

text \<open>\<open>str.rfind(ch)\<close>: the index of the last occurrence, \<open>None\<close> for Python's \<open>-1\<close>.\<close>

fun rfind :: "char \<Rightarrow> string \<Rightarrow> nat option" where
  "rfind ch [] = None"
| "rfind ch (c # cs) =
     (case rfind ch cs of
        Some i \<Rightarrow> Some (Suc i)
      | None \<Rightarrow> if c = ch then Some 0 else None)"

text \<open>
  \<open>PurePath.suffix\<close>:
  \<^verbatim>\<open>i = name.rfind('.'); return name[i:] if 0 < i < len(name) - 1 else ''\<close>
\<close>

definition suffix :: "string \<Rightarrow> string" where
  "suffix p =
     (case rfind (CHR ''.'') (name p) of
        None \<Rightarrow> []
      | Some i \<Rightarrow> if 0 < i \<and> i + 1 < length (name p) then drop i (name p) else [])"

text \<open>
  The name patterns of \<open>rglob\<close>, matched against a whole name as \<open>fnmatch\<close> does, case
  sensitively: \<open>*\<close> stands for any run of characters, every other character for itself
  (the two patterns of the program hold no \<open>?\<close> and no bracket).
\<close>

fun fnmatch :: "string \<Rightarrow> string \<Rightarrow> bool" where
  "fnmatch [] [] = True"
| "fnmatch [] (c # cs) = False"
| "fnmatch (p # ps) [] = (p = CHR ''*'' \<and> fnmatch ps [])"
| "fnmatch (p # ps) (c # cs) =
     (if p = CHR ''*'' then fnmatch ps (c # cs) \<or> fnmatch (p # ps) cs
      else p = c \<and> fnmatch ps cs)"

text \<open>
  \<open>base_dir.rglob(pattern)\<close>. The tree below \<open>base_dir\<close> is the list of the paths of
  all its entries, relative to \<open>base_dir\<close>, in the order the traversal meets them;
  \<open>rglob\<close> yields those whose name matches, in that order.
\<close>

definition rglob :: "string \<Rightarrow> string list \<Rightarrow> string list" where
  "rglob pattern tree = filter (\<lambda>rel. fnmatch pattern (name rel)) tree"

subsection \<open>Files, console and \<open>process_file\<close>\<close>

text \<open>An exception caught by \<open>except Exception as e\<close>, with its message \<open>str(e)\<close>.\<close>

datatype io_error = IOError string

fun message :: "io_error \<Rightarrow> string" where
  "message (IOError msg) = msg"

text \<open>
  What the program can observe of a path: \<open>read_result\<close> is what opening it for reading
  and \<open>f.read()\<close> give, an exception (no such file, a directory, no permission, bytes
  that are not UTF-8) or the decoded text; \<open>write_error\<close> is the exception that opening
  it for writing raises, if any.
\<close>

record entry =
  read_result :: "io_error + string"
  write_error :: "io_error option"

text \<open>
  The world of one run: the files by path, the lines printed so far (one entry for each
  call of \<open>print\<close>) and the writes that were carried out, in order.
\<close>

record world =
  files :: "string \<Rightarrow> entry"
  stdout :: "string list"
  writes :: "(string \<times> string) list"

definition print :: "string \<Rightarrow> world \<Rightarrow> world" where
  "print line w = w\<lparr>stdout := stdout w @ [line]\<rparr>"

text \<open>Lines 47 to 49: the file is opened for writing and the new text is stored.\<close>

definition write_file :: "string \<Rightarrow> string \<Rightarrow> world \<Rightarrow> io_error + world" where
  "write_file file_path content w =
     (case write_error (files w file_path) of
        Some e \<Rightarrow> Inl e
      | None \<Rightarrow>
          Inr (w\<lparr>files := (files w)(file_path := (files w file_path)\<lparr>read_result := Inr content\<rparr>),
                 writes := writes w @ [(file_path, content)]\<rparr>))"

text \<open>
  \<open>process_file\<close>, lines 28 to 54. Every exception of the body is caught by the one
  handler, which prints the error line and returns \<open>False\<close>.
\<close>

definition process_file :: "string \<Rightarrow> world \<Rightarrow> bool \<times> world" where
  "process_file file_path w =
     (case read_result (files w file_path) of
        Inl e \<Rightarrow> (False, print (''Error processing '' @ file_path @ '': '' @ message e) w)
      | Inr original_content \<Rightarrow>
          (let content = apply_mappings COLOR_MAPPINGS original_content
           in if content \<noteq> original_content
              then (case write_file file_path content w of
                      Inl e \<Rightarrow> (False, print (''Error processing '' @ file_path @ '': '' @ message e) w)
                    | Inr w' \<Rightarrow> (True, w'))
              else (False, w)))"

subsection \<open>\<open>main\<close>\<close>

text \<open>The state of the two loops: the two counters and the world.\<close>

record run =
  files_processed :: nat
  files_updated :: nat
  world_of :: world

text \<open>Lines 70 and 71: the test that skips a path of the first loop.\<close>

definition skip_tsx :: "string \<Rightarrow> bool" where
  "skip_tsx file_path =
     (''.next'' \<in> set (parts file_path) \<or> ''node_modules'' \<in> set (parts file_path))"

text \<open>Lines 80 to 83: the test that skips a path of the second loop.\<close>

definition skip_ts :: "string \<Rightarrow> bool" where
  "skip_ts file_path =
     (''.next'' \<in> set (parts file_path) \<or> ''node_modules'' \<in> set (parts file_path) \<or>
      suffix file_path = ''.d.ts'')"

text \<open>
  One turn of either loop (lines 69 to 76 and 79 to 88) for the path \<open>base_dir / rel\<close>
  that \<open>rglob\<close> yields; \<open>file_path.relative_to(base_dir)\<close> is \<open>rel\<close> again.
\<close>

definition visit :: "(string \<Rightarrow> bool) \<Rightarrow> string \<Rightarrow> run \<Rightarrow> string \<Rightarrow> run" where
  "visit skip base_dir r rel =
     (let file_path = joinpath base_dir rel
      in if skip file_path then r
         else (let r1 = r\<lparr>files_processed := files_processed r + 1\<rparr>
               in case process_file file_path (world_of r1) of
                    (True, w') \<Rightarrow>
                      r1\<lparr>files_updated := files_updated r1 + 1,
                         world_of := print (''Updated: '' @ rel) w'\<rparr>
                  | (False, w') \<Rightarrow> r1\<lparr>world_of := w'\<rparr>))"

text \<open>Line 58: the directory the program works on.\<close>

definition base_dir_of :: "string \<Rightarrow> string" where
  "base_dir_of program_dir =
     joinpath (joinpath (joinpath (joinpath program_dir ''assemble.ai'') ''src'') ''components'')
       ''cost-plan''"

text \<open>Lines 64 to 88: the counters are set to zero and the two loops run one after the other.\<close>

definition first_loop :: "string \<Rightarrow> string list \<Rightarrow> world \<Rightarrow> run" where
  "first_loop base_dir tree w =
     foldl (visit skip_tsx base_dir) \<lparr>files_processed = 0, files_updated = 0, world_of = w\<rparr>
       (rglob ''*.tsx'' tree)"

definition both_loops :: "string \<Rightarrow> string list \<Rightarrow> world \<Rightarrow> run" where
  "both_loops base_dir tree w =
     foldl (visit skip_ts base_dir) (first_loop base_dir tree w) (rglob ''*.ts'' tree)"

text \<open>The decimal form of a counter, as an f-string prints it.\<close>

fun str_nat :: "nat \<Rightarrow> string" where
  "str_nat n =
     (if n < 10 then [''0123456789'' ! n]
      else str_nat (n div 10) @ [''0123456789'' ! (n mod 10)])"

text \<open>
  \<open>main\<close>, lines 56 to 92. \<open>tree\<close> is \<open>None\<close> when \<open>base_dir\<close> does not exist and else the
  tree below it (see \<open>rglob\<close>); the run starts with nothing printed and nothing written.
  The check mark of line 90 is the three bytes of its UTF-8 form.
\<close>

definition main :: "string \<Rightarrow> string list option \<Rightarrow> (string \<Rightarrow> entry) \<Rightarrow> world" where
  "main program_dir tree fs =
     (let base_dir = base_dir_of program_dir;
          w = \<lparr>files = fs, stdout = [], writes = []\<rparr>
      in case tree of
           None \<Rightarrow> print (''Error: Directory not found: '' @ base_dir) w
         | Some t \<Rightarrow>
             (let r = both_loops base_dir t w
              in print (''  Files updated: '' @ str_nat (files_updated r))
                   (print (''  Files processed: '' @ str_nat (files_processed r))
                      (print ([CHR 0x0A, CHR 0xE2, CHR 0x9C, CHR 0x93] @ '' Processing complete!'')
                         (world_of r)))))"

subsection \<open>Example files\<close>


definition writable :: "string \<Rightarrow> entry" where
  "writable p = \<lparr>read_result = Inr ''\"#1e1e1e\"'', write_error = None\<rparr>"

definition unreadable :: "string \<Rightarrow> entry" where
  "unreadable p = \<lparr>read_result = Inl (IOError ''Is a directory''), write_error = None\<rparr>"

subsection \<open>The lines that report an update\<close>

text \<open>The printed lines that start with \<open>Updated: \<close>, in the order they were printed.\<close>

definition updated_lines :: "world \<Rightarrow> string list" where
  "updated_lines w = filter (\<lambda>line. take 9 line = ''Updated: '') (stdout w)"

subsection \<open>A literal that the pattern can still match\<close>

text \<open>
  The pattern matches at some position of the text. By \<open>quoted_literal_iff\<close> below this
  says that the text holds the literal, in any letter case, with a quote character
  somewhere before it and a quote character somewhere after it on the same line.
\<close>

fun quoted_literal :: "string \<Rightarrow> string \<Rightarrow> bool" where
  "quoted_literal hex [] = False"
| "quoted_literal hex (c # cs) = (match_here hex (c # cs) \<noteq> None \<or> quoted_literal hex cs)"

section \<open>Properties of the matcher\<close>

subsection \<open>Lower case\<close>

lemma lower_capitals: "map lower ''ABCDEFGHIJKLMNOPQRSTUVWXYZ'' = ''abcdefghijklmnopqrstuvwxyz''"
  by simp

lemma lower_other: "c \<notin> set ''ABCDEFGHIJKLMNOPQRSTUVWXYZ'' \<Longrightarrow> lower c = c"
  apply (cases c)
  subgoal for b0 b1 b2 b3 b4 b5 b6 b7
    by (cases b7; cases b6; cases b5; cases b4; cases b3; cases b2; cases b1; cases b0; simp)
  done

lemma lower_hash: "lower c = CHR ''#'' \<longleftrightarrow> c = CHR ''#''"
  by (cases c) (auto split: if_splits)

lemma lower_newline: "lower c = CHR 0x0A \<longleftrightarrow> c = CHR 0x0A"
  by (cases c) (auto split: if_splits)

subsection \<open>The literal\<close>

lemma literal_decomp:
  "literal hex s = Some (m, r) \<Longrightarrow> s = m @ r \<and> map lower m = map lower hex"
  by (induction hex s arbitrary: m r rule: literal.induct)
     (auto split: if_splits option.splits)

lemma literal_match: "map lower x = map lower hex \<Longrightarrow> literal hex (x @ r) = Some (x, r)"
proof (induction hex arbitrary: x)
  case Nil
  then show ?case by simp
next
  case (Cons p ps)
  then obtain c cs where "x = c # cs" by (cases x) auto
  with Cons show ?case by simp
qed

lemma literal_append:
  "literal hex s = Some (m, r) \<Longrightarrow> literal hex (s @ z) = Some (m, r @ z)"
  using literal_decomp [of hex s m r] literal_match [of m hex "r @ z"] by simp

lemma literal_newline:
  "CHR 0x0A \<notin> set hex \<Longrightarrow>
   literal hex (s @ CHR 0x0A # t) = map_option (\<lambda>(m, r). (m, r @ CHR 0x0A # t)) (literal hex s)"
proof (induction hex s rule: literal.induct)
  case (1 s)
  then show ?case by simp
next
  case (2 p ps)
  then have "lower p \<noteq> CHR 0x0A" by (auto simp: lower_newline)
  then show ?case by auto
next
  case (3 p ps c cs)
  then show ?case by (auto split: option.splits)
qed

subsection \<open>The closing group\<close>

lemma close_span_decomp: "close_span s = Some (g, r) \<Longrightarrow> s = g @ r"
  by (induction s arbitrary: g r) (auto split: if_splits option.splits)

lemma close_span_append:
  "close_span s = Some (g, r) \<Longrightarrow> close_span (s @ z) = Some (g, r @ z)"
  by (induction s arbitrary: g r) (auto split: if_splits option.splits)

lemma close_span_no_quote: "\<forall>c\<in>set s. \<not> is_quote c \<Longrightarrow> close_span s = None"
  by (induction s) auto

lemma close_span_None_append:
  "close_span s = None \<Longrightarrow> \<forall>c\<in>set z. \<not> is_quote c \<Longrightarrow> close_span (s @ z) = None"
  by (induction s) (auto simp: close_span_no_quote split: if_splits option.splits)

lemma close_span_noq_suffix:
  "\<forall>c\<in>set z. \<not> is_quote c \<Longrightarrow>
   close_span (s @ z) = map_option (\<lambda>(g, r). (g, r @ z)) (close_span s)"
  by (cases "close_span s") (auto simp: close_span_None_append close_span_append)

lemma close_span_newline:
  "close_span (s @ CHR 0x0A # t) = map_option (\<lambda>(g, r). (g, r @ CHR 0x0A # t)) (close_span s)"
  by (induction s) (auto simp: is_quote_def dot_def split: option.splits)

lemma close_span_run:
  "\<forall>c\<in>set post. \<not> is_quote c \<and> dot c \<Longrightarrow> is_quote q \<Longrightarrow>
   close_span (post @ q # rest) = Some (post @ [q], rest)"
  by (induction post) auto

subsection \<open>The literal and the closing group\<close>

lemma literal_then_close_decomp:
  "literal_then_close hex s = Some (m, g3, r) \<Longrightarrow>
   s = m @ g3 @ r \<and> map lower m = map lower hex"
  by (auto simp: literal_then_close_def split: option.splits
      dest!: literal_decomp close_span_decomp)

lemma literal_then_close_newline:
  "CHR 0x0A \<notin> set hex \<Longrightarrow>
   literal_then_close hex (s @ CHR 0x0A # t) =
   map_option (\<lambda>(m, g3, r). (m, g3, r @ CHR 0x0A # t)) (literal_then_close hex s)"
  by (auto simp: literal_then_close_def literal_newline close_span_newline split: option.splits)

lemma literal_then_close_noq_suffix:
  assumes "\<forall>c\<in>set z. \<not> is_quote c"
  shows "literal_then_close hex (s @ z) =
         map_option (\<lambda>(m, g3, r). (m, g3, r @ z)) (literal_then_close hex s)"
proof (cases "literal hex s")
  case None
  have "literal_then_close hex (s @ z) = None"
  proof (cases "literal hex (s @ z)")
    case None
    then show ?thesis by (simp add: literal_then_close_def)
  next
    case (Some mr)
    obtain m r where mr: "mr = (m, r)" by (cases mr)
    with Some have d: "s @ z = m @ r" "map lower m = map lower hex"
      using literal_decomp by blast+
    from d(1) obtain u where "s = m @ u \<and> u @ z = r \<or> s @ u = m \<and> z = u @ r"
      by (auto simp: append_eq_append_conv2)
    then have "z = take (length z - length r) z @ r \<and> length r \<le> length z"
    proof
      assume "s = m @ u \<and> u @ z = r"
      then have "literal hex s = Some (m, u)" using literal_match [OF d(2)] by simp
      with None show ?thesis by simp
    next
      assume "s @ u = m \<and> z = u @ r"
      then show ?thesis by auto
    qed
    then have "set r \<subseteq> set z" by (metis set_append Un_upper2)
    with assms have "close_span r = None" by (auto intro: close_span_no_quote)
    with Some mr show ?thesis by (simp add: literal_then_close_def)
  qed
  with None show ?thesis by (simp add: literal_then_close_def)
next
  case (Some mr)
  obtain m r where mr: "mr = (m, r)" by (cases mr)
  with Some have "literal hex (s @ z) = Some (m, r @ z)" by (simp add: literal_append)
  with Some mr assms show ?thesis
    by (auto simp: literal_then_close_def close_span_noq_suffix split: option.splits)
qed

subsection \<open>The lazy star and the whole pattern\<close>

lemma open_span_hit:
  "literal_then_close hex s = Some (m, g3, r) \<Longrightarrow> open_span hex s = Some ([], m, g3, r)"
  by (cases s) auto

lemma open_span_decomp:
  "open_span hex s = Some (g, m, g3, r) \<Longrightarrow>
   s = g @ m @ g3 @ r \<and> map lower m = map lower hex"
proof (induction s arbitrary: g)
  case Nil
  then show ?case by (auto split: option.splits dest!: literal_then_close_decomp)
next
  case (Cons c cs)
  then show ?case
    by (fastforce split: option.splits if_splits dest!: literal_then_close_decomp)
qed

lemma open_span_newline:
  "CHR 0x0A \<notin> set hex \<Longrightarrow>
   open_span hex (s @ CHR 0x0A # t) =
   map_option (\<lambda>(g, m, g3, r). (g, m, g3, r @ CHR 0x0A # t)) (open_span hex s)"
proof (induction s)
  case Nil
  then show ?case
    using literal_then_close_newline [of hex "[]" t]
    by (auto simp: dot_def split: option.splits)
next
  case (Cons c cs)
  then show ?case
    using literal_then_close_newline [of hex "c # cs" t]
    by (auto split: option.splits)
qed

lemma literal_then_close_Nil: "literal_then_close hex [] = None"
  by (cases hex) (auto simp: literal_then_close_def)

lemma open_span_no_quote: "\<forall>c\<in>set z. \<not> is_quote c \<Longrightarrow> open_span hex z = None"
proof (induction z)
  case Nil
  then show ?case by (simp add: literal_then_close_Nil)
next
  case (Cons c cs)
  then have "literal_then_close hex (c # cs) = None"
    using literal_then_close_noq_suffix [of "c # cs" hex "[]"]
    by (simp add: literal_then_close_Nil)
  with Cons show ?case by simp
qed

lemma open_span_noq_suffix:
  "\<forall>c\<in>set z. \<not> is_quote c \<Longrightarrow>
   open_span hex (s @ z) = map_option (\<lambda>(g, m, g3, r). (g, m, g3, r @ z)) (open_span hex s)"
proof (induction s)
  case Nil
  then show ?case by (simp add: open_span_no_quote literal_then_close_Nil)
next
  case (Cons c cs)
  then show ?case
    using literal_then_close_noq_suffix [of z hex "c # cs"]
    by (auto split: option.splits)
qed

lemma open_span_occurs: "open_span hex s = Some x \<Longrightarrow> occurs hex s"
proof (induction s arbitrary: x)
  case Nil
  then show ?case by (auto simp: literal_then_close_def split: option.splits)
next
  case (Cons c cs)
  then show ?case
    by (auto simp: literal_then_close_def split: option.splits if_splits)
qed

lemma match_here_newline:
  "CHR 0x0A \<notin> set hex \<Longrightarrow>
   match_here hex (c # cs @ CHR 0x0A # t) =
   map_option (\<lambda>(g, m, g3, r). (g, m, g3, r @ CHR 0x0A # t)) (match_here hex (c # cs))"
  by (auto simp: open_span_newline split: option.splits)

lemma match_here_noq_suffix:
  "\<forall>c\<in>set z. \<not> is_quote c \<Longrightarrow>
   match_here hex (c # cs @ z) =
   map_option (\<lambda>(g, m, g3, r). (g, m, g3, r @ z)) (match_here hex (c # cs))"
  by (auto simp: open_span_noq_suffix split: option.splits)

lemma match_here_occurs: "match_here hex s = Some x \<Longrightarrow> occurs hex s"
  by (cases s) (auto split: if_splits option.splits dest: open_span_occurs)

subsection \<open>The substitution\<close>

lemma re_sub_no_quote_prefix:
  "\<forall>c\<in>set a. \<not> is_quote c \<Longrightarrow> re_sub hex token (a @ s) = a @ re_sub hex token s"
  by (induction a) auto

lemma re_sub_newline:
  "CHR 0x0A \<notin> set hex \<Longrightarrow>
   re_sub hex token (s @ CHR 0x0A # t) = re_sub hex token s @ CHR 0x0A # re_sub hex token t"
proof (induction hex token s rule: re_sub.induct)
  case (1 hex token)
  then show ?case by (simp add: is_quote_def)
next
  case (2 hex token c cs)
  show ?case
  proof (cases "match_here hex (c # cs)")
    case None
    with 2 show ?thesis
      using match_here_newline [of hex c cs t] by (simp del: match_here.simps)
  next
    case (Some x)
    obtain g1 m g3 rest where x: "x = (g1, m, g3, rest)" by (cases x)
    with Some 2 show ?thesis
      using match_here_newline [of hex c cs t] by (simp del: match_here.simps)
  qed
qed

lemma re_sub_no_quote_suffix:
  "\<forall>c\<in>set z. \<not> is_quote c \<Longrightarrow> re_sub hex token (s @ z) = re_sub hex token s @ z"
proof (induction hex token s rule: re_sub.induct)
  case (1 hex token)
  then show ?case using re_sub_no_quote_prefix [of z hex token "[]"] by simp
next
  case (2 hex token c cs)
  show ?case
  proof (cases "match_here hex (c # cs)")
    case None
    with 2 show ?thesis
      using match_here_noq_suffix [of z hex c cs] by (simp del: match_here.simps)
  next
    case (Some x)
    obtain g1 m g3 rest where x: "x = (g1, m, g3, rest)" by (cases x)
    with Some 2 show ?thesis
      using match_here_noq_suffix [of z hex c cs] by (simp del: match_here.simps)
  qed
qed

lemma re_sub_no_occurrence: "\<not> occurs hex s \<Longrightarrow> re_sub hex token s = s"
proof (induction s)
  case Nil
  then show ?case by simp
next
  case (Cons c cs)
  then have "match_here hex (c # cs) = None"
    using match_here_occurs [of hex "c # cs"] by (cases "match_here hex (c # cs)") auto
  with Cons show ?case by (simp del: match_here.simps)
qed

lemma occurs_iff:
  "occurs hex s \<longleftrightarrow> (\<exists>a m b. s = a @ m @ b \<and> map lower m = map lower hex)"
proof (induction s)
  case Nil
  show ?case by (cases hex) auto
next
  case (Cons c cs)
  note IH = Cons.IH
  show ?case
  proof
    assume "occurs hex (c # cs)"
    then consider "literal hex (c # cs) \<noteq> None" | "occurs hex cs" by auto
    then show "\<exists>a m b. c # cs = a @ m @ b \<and> map lower m = map lower hex"
    proof cases
      case 1
      then obtain m r where "literal hex (c # cs) = Some (m, r)" by auto
      then have "c # cs = [] @ m @ r \<and> map lower m = map lower hex"
        using literal_decomp by fastforce
      then show ?thesis by blast
    next
      case 2
      with IH obtain a m b where "cs = a @ m @ b" "map lower m = map lower hex" by blast
      then have "c # cs = (c # a) @ m @ b \<and> map lower m = map lower hex" by simp
      then show ?thesis by blast
    qed
  next
    assume "\<exists>a m b. c # cs = a @ m @ b \<and> map lower m = map lower hex"
    then obtain a m b where d: "c # cs = a @ m @ b" "map lower m = map lower hex" by blast
    show "occurs hex (c # cs)"
    proof (cases a)
      case Nil
      with d have "literal hex (c # cs) = Some (m, b)" using literal_match [of m hex b] by simp
      then show ?thesis by simp
    next
      case (Cons a0 as)
      with d have "cs = as @ m @ b" by simp
      with d(2) IH have "occurs hex cs" by blast
      then show ?thesis by simp
    qed
  qed
qed

subsection \<open>The table\<close>

lemma table_newline: "(hex, token) \<in> set COLOR_MAPPINGS \<Longrightarrow> CHR 0x0A \<notin> set hex"
  by (auto simp: COLOR_MAPPINGS_def)

lemma table_lower: "(hex, token) \<in> set COLOR_MAPPINGS \<Longrightarrow> map lower hex = hex"
  by (auto simp: COLOR_MAPPINGS_def)

lemma table_hash:
  "(hex, token) \<in> set COLOR_MAPPINGS \<Longrightarrow>
   hex \<noteq> [] \<and> hd hex = CHR ''#'' \<and> CHR ''#'' \<notin> set (tl hex) \<and> length hex = 7"
  by (auto simp: COLOR_MAPPINGS_def)

lemma table_token: "(hex, token) \<in> set COLOR_MAPPINGS \<Longrightarrow> CHR ''#'' \<notin> set token"
  by (auto simp: COLOR_MAPPINGS_def)

subsection \<open>Name patterns and suffixes\<close>

lemma fnmatch_literal: "CHR ''*'' \<notin> set lit \<Longrightarrow> fnmatch lit n \<longleftrightarrow> n = lit"
  by (induction lit n rule: fnmatch.induct) auto

lemma fnmatch_star_literal:
  "CHR ''*'' \<notin> set lit \<Longrightarrow> fnmatch (CHR ''*'' # lit) n \<longleftrightarrow> (\<exists>a. n = a @ lit)"
proof (induction n)
  case Nil
  then show ?case by (auto simp: fnmatch_literal)
next
  case (Cons c cs)
  have "(\<exists>a. c # cs = a @ lit) \<longleftrightarrow> c # cs = lit \<or> (\<exists>a. cs = a @ lit)"
    by (auto simp: Cons_eq_append_conv)
  with Cons show ?case by (simp add: fnmatch_literal)
qed

lemma fnmatch_tsx_ts: "\<not> (fnmatch ''*.tsx'' n \<and> fnmatch ''*.ts'' n)"
proof
  assume "fnmatch ''*.tsx'' n \<and> fnmatch ''*.ts'' n"
  then obtain a b where "n = a @ ''.tsx''" "n = b @ ''.ts''"
    by (auto simp: fnmatch_star_literal)
  then have "last n = CHR ''x''" "last n = CHR ''s''" by simp_all
  then show False by simp
qed

lemma rfind_None: "rfind ch s = None \<Longrightarrow> ch \<notin> set s"
  by (induction s) (auto split: option.splits if_splits)

lemma rfind_last:
  "rfind ch s = Some i \<Longrightarrow> i < length s \<and> ch \<notin> set (drop (Suc i) s)"
  by (induction s arbitrary: i) (auto split: option.splits if_splits dest: rfind_None)

lemma suffix_one_dot: "CHR ''.'' \<notin> set (tl (suffix p))"
proof (cases "rfind (CHR ''.'') (name p)")
  case None
  then show ?thesis by (simp add: suffix_def)
next
  case (Some i)
  then have "CHR ''.'' \<notin> set (drop (Suc i) (name p))"
    using rfind_last by blast
  with Some show ?thesis by (simp add: suffix_def drop_Suc drop_tl)
qed

lemma suffix_never_d_ts: "suffix p \<noteq> ''.d.ts''"
  using suffix_one_dot [of p] by auto

lemma skip_ts_is_skip_tsx: "skip_ts = skip_tsx"
  by (simp add: fun_eq_iff skip_ts_def skip_tsx_def suffix_never_d_ts)

subsection \<open>The whole table\<close>

lemma apply_mappings_Nil: "apply_mappings [] content = content"
  by (simp add: apply_mappings_def)

lemma apply_mappings_Cons:
  "apply_mappings ((hex, token) # table) content = apply_mappings table (re_sub hex token content)"
  by (simp add: apply_mappings_def)

lemma apply_mappings_append:
  "apply_mappings (t1 @ t2) content = apply_mappings t2 (apply_mappings t1 content)"
  by (simp add: apply_mappings_def)

lemma apply_quoted_1e1e1e:
  "apply_mappings COLOR_MAPPINGS ''\"#1e1e1e\"'' = ''\"var(--color-bg-primary)\"''"
  by (simp add: COLOR_MAPPINGS_def apply_mappings_Cons apply_mappings_Nil
      is_quote_def dot_def literal_then_close_def)

subsection \<open>The loops\<close>

lemma rglob_disjoint: "set (rglob ''*.tsx'' tree) \<inter> set (rglob ''*.ts'' tree) = {}"
  using fnmatch_tsx_ts by (auto simp: rglob_def)

lemma rglob_distinct:
  "distinct tree \<Longrightarrow> distinct (rglob ''*.tsx'' tree @ rglob ''*.ts'' tree)"
  using rglob_disjoint [of tree] by (simp add: rglob_def)

lemma process_file_stdout:
  "updated_lines (snd (process_file file_path w)) = updated_lines w"
  by (auto simp: process_file_def write_file_def print_def updated_lines_def Let_def
      split: sum.splits option.splits)

lemma visit_processed:
  "files_processed (visit skip base_dir r rel) \<le> files_processed r + 1 \<and>
   files_processed r \<le> files_processed (visit skip base_dir r rel)"
  by (auto simp: visit_def Let_def split: prod.splits bool.splits)

lemma visit_counters:
  "files_updated r \<le> files_processed r \<Longrightarrow>
   files_updated (visit skip base_dir r rel) \<le> files_processed (visit skip base_dir r rel)"
  by (auto simp: visit_def Let_def split: prod.splits bool.splits)

lemma foldl_visit_counters:
  "files_updated r \<le> files_processed r \<Longrightarrow>
   files_updated (foldl (visit skip base_dir) r rels) \<le>
   files_processed (foldl (visit skip base_dir) r rels)"
  by (induction rels arbitrary: r) (auto simp: visit_counters)

lemma foldl_visit_processed:
  "files_processed (foldl (visit skip base_dir) r rels) \<le> files_processed r + length rels"
proof (induction rels arbitrary: r)
  case Nil
  then show ?case by simp
next
  case (Cons rel rels)
  have "files_processed (foldl (visit skip base_dir) (visit skip base_dir r rel) rels) \<le>
        files_processed (visit skip base_dir r rel) + length rels"
    by (rule Cons.IH)
  also have "\<dots> \<le> files_processed r + 1 + length rels"
    using visit_processed [of skip base_dir r rel] by simp
  finally show ?case by simp
qed

lemma visit_lines:
  "\<exists>us. (us = [] \<or> us = [rel]) \<and>
     updated_lines (world_of (visit skip base_dir r rel)) =
       updated_lines (world_of r) @ map (\<lambda>x. ''Updated: '' @ x) us \<and>
     files_updated (visit skip base_dir r rel) = files_updated r + length us"
proof (cases "skip (joinpath base_dir rel)")
  case True
  then show ?thesis by (simp add: visit_def)
next
  case False
  obtain b w' where p: "process_file (joinpath base_dir rel) (world_of r) = (b, w')"
    by (cases "process_file (joinpath base_dir rel) (world_of r)")
  then have l: "updated_lines w' = updated_lines (world_of r)"
    using process_file_stdout [of "joinpath base_dir rel" "world_of r"] by simp
  show ?thesis
  proof (cases b)
    case True
    with False p l have
      "updated_lines (world_of (visit skip base_dir r rel)) =
         updated_lines (world_of r) @ map (\<lambda>x. ''Updated: '' @ x) [rel] \<and>
       files_updated (visit skip base_dir r rel) = files_updated r + length [rel]"
      by (simp add: visit_def print_def updated_lines_def)
    then show ?thesis by blast
  next
    case False
    with \<open>\<not> skip (joinpath base_dir rel)\<close> p l have
      "updated_lines (world_of (visit skip base_dir r rel)) =
         updated_lines (world_of r) @ map (\<lambda>x. ''Updated: '' @ x) [] \<and>
       files_updated (visit skip base_dir r rel) = files_updated r + length ([] :: string list)"
      by (simp add: visit_def)
    then show ?thesis by blast
  qed
qed

lemma foldl_visit_lines:
  "distinct rels \<Longrightarrow>
   \<exists>us. distinct us \<and> set us \<subseteq> set rels \<and>
     updated_lines (world_of (foldl (visit skip base_dir) r rels)) =
       updated_lines (world_of r) @ map (\<lambda>x. ''Updated: '' @ x) us \<and>
     files_updated (foldl (visit skip base_dir) r rels) = files_updated r + length us"
proof (induction rels arbitrary: r)
  case Nil
  have "distinct ([] :: string list) \<and> set [] \<subseteq> set ([] :: string list) \<and>
     updated_lines (world_of (foldl (visit skip base_dir) r [])) =
       updated_lines (world_of r) @ map (\<lambda>x. ''Updated: '' @ x) [] \<and>
     files_updated (foldl (visit skip base_dir) r []) = files_updated r + length ([] :: string list)"
    by simp
  then show ?case by blast
next
  case (Cons rel rels)
  obtain us0 where u0: "us0 = [] \<or> us0 = [rel]"
    "updated_lines (world_of (visit skip base_dir r rel)) =
       updated_lines (world_of r) @ map (\<lambda>x. ''Updated: '' @ x) us0"
    "files_updated (visit skip base_dir r rel) = files_updated r + length us0"
    using visit_lines [of rel skip base_dir r] by blast
  from Cons.prems have "distinct rels" by simp
  from Cons.IH [OF this, of "visit skip base_dir r rel"]
  obtain us1 where u1: "distinct us1" "set us1 \<subseteq> set rels"
    "updated_lines (world_of (foldl (visit skip base_dir) (visit skip base_dir r rel) rels)) =
       updated_lines (world_of (visit skip base_dir r rel)) @ map (\<lambda>x. ''Updated: '' @ x) us1"
    "files_updated (foldl (visit skip base_dir) (visit skip base_dir r rel) rels) =
       files_updated (visit skip base_dir r rel) + length us1"
    by blast
  have "distinct (us0 @ us1)" using u0(1) u1(1,2) Cons.prems by auto
  moreover have "set (us0 @ us1) \<subseteq> set (rel # rels)" using u0(1) u1(2) by auto
  moreover have "updated_lines (world_of (foldl (visit skip base_dir) r (rel # rels))) =
       updated_lines (world_of r) @ map (\<lambda>x. ''Updated: '' @ x) (us0 @ us1)"
    using u0(2) u1(3) by simp
  moreover have "files_updated (foldl (visit skip base_dir) r (rel # rels)) =
       files_updated r + length (us0 @ us1)"
    using u0(3) u1(4) by simp
  ultimately show ?case by blast
qed

lemma updated_lines_main:
  "updated_lines (main program_dir (Some tree) fs) =
   updated_lines (world_of (both_loops (base_dir_of program_dir) tree
      \<lparr>files = fs, stdout = [], writes = []\<rparr>))"
  by (simp add: main_def print_def updated_lines_def Let_def)

lemma both_loops_lines:
  assumes "distinct tree"
  shows "\<exists>us. distinct us \<and>
     updated_lines (world_of (both_loops base_dir tree \<lparr>files = fs, stdout = [], writes = []\<rparr>)) =
       map (\<lambda>x. ''Updated: '' @ x) us \<and>
     files_updated (both_loops base_dir tree \<lparr>files = fs, stdout = [], writes = []\<rparr>) = length us"
proof -
  let ?w = "\<lparr>files = fs, stdout = [], writes = []\<rparr>"
  let ?r0 = "\<lparr>files_processed = 0, files_updated = 0, world_of = ?w\<rparr>"
  have d: "distinct (rglob ''*.tsx'' tree)" "distinct (rglob ''*.ts'' tree)"
    using assms by (simp_all add: rglob_def)
  obtain us1 where u1: "distinct us1" "set us1 \<subseteq> set (rglob ''*.tsx'' tree)"
    "updated_lines (world_of (first_loop base_dir tree ?w)) =
       updated_lines (world_of ?r0) @ map (\<lambda>x. ''Updated: '' @ x) us1"
    "files_updated (first_loop base_dir tree ?w) = files_updated ?r0 + length us1"
    unfolding first_loop_def using foldl_visit_lines [OF d(1), of skip_tsx base_dir ?r0] by blast
  obtain us2 where u2: "distinct us2" "set us2 \<subseteq> set (rglob ''*.ts'' tree)"
    "updated_lines (world_of (both_loops base_dir tree ?w)) =
       updated_lines (world_of (first_loop base_dir tree ?w)) @ map (\<lambda>x. ''Updated: '' @ x) us2"
    "files_updated (both_loops base_dir tree ?w) =
       files_updated (first_loop base_dir tree ?w) + length us2"
    unfolding both_loops_def
    using foldl_visit_lines [OF d(2), of skip_ts base_dir "first_loop base_dir tree ?w"] by blast
  have "set us1 \<inter> set us2 = {}"
    using u1(2) u2(2) rglob_disjoint [of tree] by blast
  then have "distinct (us1 @ us2)" using u1(1) u2(1) by simp
  moreover have "updated_lines (world_of (both_loops base_dir tree ?w)) =
       map (\<lambda>x. ''Updated: '' @ x) (us1 @ us2)"
    using u1(3) u2(3) by (simp add: updated_lines_def)
  moreover have "files_updated (both_loops base_dir tree ?w) = length (us1 @ us2)"
    using u1(4) u2(4) by simp
  ultimately show ?thesis by blast
qed

lemma base_dir_of_repo:
  "base_dir_of ''/repo'' = ''/repo/assemble.ai/src/components/cost-plan''"
  by (simp add: base_dir_of_def joinpath_def)

lemma declarations_not_skipped:
  "\<not> skip_ts ''/repo/assemble.ai/src/components/cost-plan/types.d.ts''"
  by (simp add: skip_ts_is_skip_tsx skip_tsx_def parts_def)

subsection \<open>Occurrences\<close>

lemma lower_quote: "is_quote c \<Longrightarrow> lower c = c"
  by (auto simp: is_quote_def)

lemma occurs_Nil: "hex \<noteq> [] \<Longrightarrow> \<not> occurs hex []"
  by (cases hex) auto

lemma literal_head: "hex \<noteq> [] \<Longrightarrow> lower c \<noteq> lower (hd hex) \<Longrightarrow> literal hex (c # s) = None"
  by (cases hex) auto

lemma occurs_skip:
  "hex \<noteq> [] \<Longrightarrow> \<forall>c\<in>set u. lower c \<noteq> lower (hd hex) \<Longrightarrow> occurs hex (u @ s) = occurs hex s"
  by (induction u) (auto simp: literal_head)

lemma table_chars:
  "(hex, token) \<in> set COLOR_MAPPINGS \<Longrightarrow> \<forall>c\<in>set hex. \<not> is_quote c \<and> dot c"
  by (auto simp: COLOR_MAPPINGS_def is_quote_def dot_def)

lemma table_token_chars:
  "(hex, token) \<in> set COLOR_MAPPINGS \<Longrightarrow>
   \<forall>c\<in>set token. \<not> is_quote c \<and> dot c \<and> c \<noteq> CHR ''#''"
  by (auto simp: COLOR_MAPPINGS_def is_quote_def dot_def)

lemma table_distinct: "distinct (map fst COLOR_MAPPINGS)"
  by (simp add: COLOR_MAPPINGS_def)

lemma table_split:
  assumes "(hex, token) \<in> set table" "distinct (map fst table)"
  shows "\<exists>t1 t2. table = t1 @ (hex, token) # t2 \<and> (\<forall>(h, t)\<in>set (t1 @ t2). h \<noteq> hex)"
proof -
  from assms(1) obtain t1 t2 where t: "table = t1 @ (hex, token) # t2"
    by (auto simp: in_set_conv_decomp)
  with assms(2) have "hex \<notin> fst ` set t1" "hex \<notin> fst ` set t2" by auto
  then have "\<forall>(h, t)\<in>set (t1 @ t2). h \<noteq> hex" by force
  with t show ?thesis by blast
qed

lemma variant_chars:
  assumes "(hex, token) \<in> set COLOR_MAPPINGS" "map lower x = hex"
  shows "length x = 7 \<and> x \<noteq> [] \<and> hd x = CHR ''#'' \<and> CHR ''#'' \<notin> set (tl x) \<and>
         (\<forall>c\<in>set x. \<not> is_quote c \<and> dot c)"
proof -
  from table_hash [OF assms(1)] have h: "hex \<noteq> []" "hd hex = CHR ''#''"
    "CHR ''#'' \<notin> set (tl hex)" "length hex = 7" by simp_all
  from assms(2) h(4) have l: "length x = 7" by (metis length_map)
  then obtain c cs where x: "x = c # cs" by (cases x) auto
  with assms(2) h(1,2) have "lower c = CHR ''#''" by (cases hex) auto
  then have c: "c = CHR ''#''" by (simp add: lower_hash)
  have "CHR ''#'' \<notin> set cs"
  proof
    assume "CHR ''#'' \<in> set cs"
    then have "lower (CHR ''#'') \<in> set (map lower cs)" by (simp only: set_map image_eqI)
    moreover have "map lower cs = tl hex" using assms(2) x by auto
    ultimately show False using h(3) by simp
  qed
  moreover have "\<not> is_quote d \<and> dot d" if "d \<in> set x" for d
  proof -
    from that have "lower d \<in> set hex" using assms(2) by auto
    then have "\<not> is_quote (lower d) \<and> dot (lower d)" using table_chars [OF assms(1)] by blast
    then show ?thesis using lower_quote [of d] lower_newline [of d] by (auto simp: dot_def)
  qed
  ultimately show ?thesis using l x c by simp
qed

lemma occurs_table_skip:
  assumes "(hex, token) \<in> set COLOR_MAPPINGS" "CHR ''#'' \<notin> set u"
  shows "occurs hex (u @ s) = occurs hex s"
proof -
  from table_hash [OF assms(1)] have h: "hex \<noteq> []" "hd hex = CHR ''#''" by simp_all
  have "\<forall>c\<in>set u. lower c \<noteq> lower (hd hex)"
    using assms(2) h(2) by (auto simp: lower_hash)
  with h(1) show ?thesis by (rule occurs_skip)
qed

subsection \<open>Where the pattern matches\<close>

lemma close_span_sound:
  "close_span s = Some (g, r) \<Longrightarrow>
   \<exists>post q. g = post @ [q] \<and> is_quote q \<and> (\<forall>d\<in>set post. dot d)"
proof (induction s arbitrary: g r)
  case Nil
  then show ?case by simp
next
  case (Cons c cs)
  show ?case
  proof (cases "is_quote c")
    case True
    with Cons.prems have "g = [] @ [c] \<and> is_quote c \<and> (\<forall>d\<in>set []. dot d)" by auto
    then show ?thesis by blast
  next
    case False
    with Cons.prems obtain g' where g': "dot c" "close_span cs = Some (g', r)" "g = c # g'"
      by (auto split: if_splits option.splits)
    from Cons.IH [OF g'(2)] obtain post q where "g' = post @ [q]" "is_quote q" "\<forall>d\<in>set post. dot d"
      by blast
    with g' have "g = (c # post) @ [q] \<and> is_quote q \<and> (\<forall>d\<in>set (c # post). dot d)" by simp
    then show ?thesis by blast
  qed
qed

lemma close_span_complete:
  "\<forall>d\<in>set post. dot d \<Longrightarrow> is_quote q \<Longrightarrow> close_span (post @ q # rest) \<noteq> None"
  by (induction post) auto

lemma literal_then_close_sound:
  "literal_then_close hex s = Some (m, g3, r) \<Longrightarrow>
   \<exists>post q. g3 = post @ [q] \<and> is_quote q \<and> (\<forall>d\<in>set post. dot d)"
  by (auto simp: literal_then_close_def split: option.splits dest: close_span_sound)

lemma open_span_sound:
  "open_span hex s = Some (g, m, g3, r) \<Longrightarrow>
   (\<forall>d\<in>set g. dot d) \<and> (\<exists>post q. g3 = post @ [q] \<and> is_quote q \<and> (\<forall>d\<in>set post. dot d))"
proof (induction s arbitrary: g)
  case Nil
  then show ?case by (auto split: option.splits dest: literal_then_close_sound)
next
  case (Cons c cs)
  show ?case
  proof (cases "literal_then_close hex (c # cs)")
    case None
    with Cons.prems obtain g' where g': "dot c" "open_span hex cs = Some (g', m, g3, r)" "g = c # g'"
      by (auto split: if_splits option.splits)
    from Cons.IH [OF g'(2)] g'(1,3) show ?thesis by simp
  next
    case (Some x)
    obtain m' g3' r' where "x = (m', g3', r')" by (cases x)
    with Some Cons.prems have "g = []" "literal_then_close hex (c # cs) = Some (m, g3, r)" by simp_all
    then show ?thesis using literal_then_close_sound by fastforce
  qed
qed

lemma open_span_complete:
  assumes "\<forall>d\<in>set (a @ post). dot d" "is_quote q" "map lower x = map lower hex"
  shows "open_span hex (a @ x @ post @ q # rest) \<noteq> None"
  using assms(1)
proof (induction a)
  case Nil
  obtain g r where "close_span (post @ q # rest) = Some (g, r)"
    using close_span_complete [of post q rest] Nil assms(2) by auto
  then have "literal_then_close hex (x @ post @ q # rest) = Some (x, g, r)"
    using assms(3) by (simp add: literal_then_close_def literal_match)
  then show ?case using open_span_hit by fastforce
next
  case (Cons d a)
  then have "open_span hex (a @ x @ post @ q # rest) \<noteq> None" "dot d" by simp_all
  then show ?case by (auto split: option.splits)
qed

lemma match_here_iff:
  "match_here hex s \<noteq> None \<longleftrightarrow>
   (\<exists>q1 a x post q2 rest. s = q1 # a @ x @ post @ q2 # rest \<and> is_quote q1 \<and> is_quote q2 \<and>
      (\<forall>d\<in>set (a @ post). dot d) \<and> map lower x = map lower hex)"
proof
  assume "match_here hex s \<noteq> None"
  then obtain c cs g m g3 r where s: "s = c # cs" "is_quote c" "open_span hex cs = Some (g, m, g3, r)"
    by (cases s) (auto split: if_splits option.splits)
  from open_span_decomp [OF s(3)] have d: "cs = g @ m @ g3 @ r" "map lower m = map lower hex"
    by simp_all
  from open_span_sound [OF s(3)] obtain post q where
    p: "\<forall>d\<in>set g. dot d" "g3 = post @ [q]" "is_quote q" "\<forall>d\<in>set post. dot d"
    by blast
  have "s = c # g @ m @ post @ q # r \<and> is_quote c \<and> is_quote q \<and>
      (\<forall>d\<in>set (g @ post). dot d) \<and> map lower m = map lower hex"
    using s d p by auto
  then show "\<exists>q1 a x post q2 rest. s = q1 # a @ x @ post @ q2 # rest \<and> is_quote q1 \<and> is_quote q2 \<and>
      (\<forall>d\<in>set (a @ post). dot d) \<and> map lower x = map lower hex"
    by blast
next
  assume "\<exists>q1 a x post q2 rest. s = q1 # a @ x @ post @ q2 # rest \<and> is_quote q1 \<and> is_quote q2 \<and>
      (\<forall>d\<in>set (a @ post). dot d) \<and> map lower x = map lower hex"
  then obtain q1 a x post q2 rest where s: "s = q1 # a @ x @ post @ q2 # rest" "is_quote q1"
    "is_quote q2" "\<forall>d\<in>set (a @ post). dot d" "map lower x = map lower hex"
    by blast
  from open_span_complete [OF s(4,3,5), of rest] s(1,2)
  show "match_here hex s \<noteq> None" by (auto split: option.splits)
qed

lemma quoted_literal_iff:
  "quoted_literal hex s \<longleftrightarrow>
   (\<exists>pre q1 a x post q2 rest. s = pre @ q1 # a @ x @ post @ q2 # rest \<and>
      is_quote q1 \<and> is_quote q2 \<and> (\<forall>d\<in>set (a @ post). dot d) \<and> map lower x = map lower hex)"
proof (induction s)
  case Nil
  show ?case by simp
next
  case (Cons c cs)
  note IH = Cons.IH
  show ?case
  proof
    assume "quoted_literal hex (c # cs)"
    then consider "match_here hex (c # cs) \<noteq> None" | "quoted_literal hex cs" by auto
    then show "\<exists>pre q1 a x post q2 rest. c # cs = pre @ q1 # a @ x @ post @ q2 # rest \<and>
      is_quote q1 \<and> is_quote q2 \<and> (\<forall>d\<in>set (a @ post). dot d) \<and> map lower x = map lower hex"
    proof cases
      case 1
      then obtain q1 a x post q2 rest where "c # cs = q1 # a @ x @ post @ q2 # rest" "is_quote q1"
        "is_quote q2" "\<forall>d\<in>set (a @ post). dot d" "map lower x = map lower hex"
        unfolding match_here_iff by blast
      then have "c # cs = [] @ q1 # a @ x @ post @ q2 # rest \<and> is_quote q1 \<and>
        is_quote q2 \<and> (\<forall>d\<in>set (a @ post). dot d) \<and> map lower x = map lower hex"
        by simp
      then show ?thesis by blast
    next
      case 2
      with IH obtain pre q1 a x post q2 rest where "cs = pre @ q1 # a @ x @ post @ q2 # rest"
        "is_quote q1" "is_quote q2" "\<forall>d\<in>set (a @ post). dot d" "map lower x = map lower hex"
        by blast
      then have "c # cs = (c # pre) @ q1 # a @ x @ post @ q2 # rest \<and> is_quote q1 \<and>
        is_quote q2 \<and> (\<forall>d\<in>set (a @ post). dot d) \<and> map lower x = map lower hex"
        by simp
      then show ?thesis by blast
    qed
  next
    assume "\<exists>pre q1 a x post q2 rest. c # cs = pre @ q1 # a @ x @ post @ q2 # rest \<and>
      is_quote q1 \<and> is_quote q2 \<and> (\<forall>d\<in>set (a @ post). dot d) \<and> map lower x = map lower hex"
    then obtain pre q1 a x post q2 rest where s: "c # cs = pre @ q1 # a @ x @ post @ q2 # rest"
      "is_quote q1" "is_quote q2" "\<forall>d\<in>set (a @ post). dot d" "map lower x = map lower hex"
      by blast
    show "quoted_literal hex (c # cs)"
    proof (cases pre)
      case Nil
      with s have "c # cs = q1 # a @ x @ post @ q2 # rest \<and> is_quote q1 \<and> is_quote q2 \<and>
        (\<forall>d\<in>set (a @ post). dot d) \<and> map lower x = map lower hex"
        by simp
      then have "match_here hex (c # cs) \<noteq> None"
        unfolding match_here_iff by blast
      then show ?thesis by simp
    next
      case (Cons p ps)
      with s have "cs = ps @ q1 # a @ x @ post @ q2 # rest" by simp
      with s(2-5) IH have "quoted_literal hex cs" by blast
      then show ?thesis by simp
    qed
  qed
qed

lemma match_here_decomp:
  "match_here hex s = Some (g1, m, g3, rest) \<Longrightarrow>
   s = g1 @ m @ g3 @ rest \<and> map lower m = map lower hex"
  by (cases s) (auto split: if_splits option.splits dest: open_span_decomp)

lemma re_sub_no_match: "\<not> quoted_literal hex s \<Longrightarrow> re_sub hex token s = s"
proof (induction s)
  case Nil
  show ?case by simp
next
  case (Cons c cs)
  have "match_here hex (c # cs) = None" "\<not> quoted_literal hex cs"
    using Cons.prems unfolding quoted_literal.simps by blast+
  with Cons.IH show ?case by (simp del: match_here.simps)
qed

lemma re_sub_hash:
  assumes "CHR ''#'' \<notin> set token"
    and "\<And>m. map lower m = map lower hex \<Longrightarrow> CHR ''#'' \<in> set m"
  shows "count_list (re_sub hex token s) (CHR ''#'') \<le> count_list s (CHR ''#'') \<and>
         (quoted_literal hex s \<longrightarrow>
            count_list (re_sub hex token s) (CHR ''#'') < count_list s (CHR ''#''))"
  using assms
proof (induction hex token s rule: re_sub.induct)
  case (1 hex token)
  then show ?case by simp
next
  case (2 hex token c cs)
  show ?case
  proof (cases "match_here hex (c # cs)")
    case None
    with 2 show ?thesis by (simp del: match_here.simps)
  next
    case (Some x)
    obtain g1 m g3 rest where x: "x = (g1, m, g3, rest)" by (cases x)
    with Some have d: "c # cs = g1 @ m @ g3 @ rest" "map lower m = map lower hex"
      using match_here_decomp by blast+
    from 2(2) [OF Some x [symmetric] refl refl 2(3,4)]
    have le: "count_list (re_sub hex token rest) (CHR ''#'') \<le> count_list rest (CHR ''#'')"
      by simp
    have "count_list m (CHR ''#'') \<noteq> 0"
      using 2(4) [OF d(2)] count_list_0_iff [of m "CHR ''#''"] by blast
    then have "0 < count_list m (CHR ''#'')" by simp
    moreover have "count_list token (CHR ''#'') = 0"
      using 2(3) by (rule count_notin)
    moreover have "re_sub hex token (c # cs) = g1 @ token @ g3 @ re_sub hex token rest"
      using Some x by (simp del: match_here.simps)
    ultimately have "count_list (re_sub hex token (c # cs)) (CHR ''#'') <
        count_list (g1 @ m @ g3 @ rest) (CHR ''#'')"
      using le by simp
    then show ?thesis unfolding d(1) by simp
  qed
qed

lemma apply_mappings_fixed:
  "\<forall>(hex, token)\<in>set table. \<not> quoted_literal hex s \<Longrightarrow> apply_mappings table s = s"
  by (induction table) (auto simp: apply_mappings_Nil apply_mappings_Cons re_sub_no_match)

lemma apply_mappings_hash:
  assumes "\<forall>(hex, token)\<in>set table.
      CHR ''#'' \<notin> set token \<and> (\<forall>m. map lower m = map lower hex \<longrightarrow> CHR ''#'' \<in> set m)"
  shows "count_list (apply_mappings table s) (CHR ''#'') \<le> count_list s (CHR ''#'') \<and>
         ((\<exists>(hex, token)\<in>set table. quoted_literal hex s) \<longrightarrow>
            count_list (apply_mappings table s) (CHR ''#'') < count_list s (CHR ''#''))"
  using assms
proof (induction table arbitrary: s)
  case Nil
  then show ?case by (simp add: apply_mappings_Nil)
next
  case (Cons rule table)
  obtain hex token where r: "rule = (hex, token)" by (cases rule)
  from Cons.prems r have h: "CHR ''#'' \<notin> set token"
    "\<And>m. map lower m = map lower hex \<Longrightarrow> CHR ''#'' \<in> set m"
    by auto
  from Cons.prems have t: "\<forall>(hex, token)\<in>set table.
      CHR ''#'' \<notin> set token \<and> (\<forall>m. map lower m = map lower hex \<longrightarrow> CHR ''#'' \<in> set m)"
    by simp
  note one = re_sub_hash [of token hex s, OF h]
  note ih = Cons.IH [OF t, of "re_sub hex token s"]
  show ?case
  proof (cases "quoted_literal hex s")
    case True
    with one ih show ?thesis
      by (simp add: r apply_mappings_Cons)
  next
    case False
    then have "re_sub hex token s = s" by (rule re_sub_no_match)
    with ih False show ?thesis
      by (simp add: r apply_mappings_Cons)
  qed
qed

lemma table_rule_hash:
  assumes "(hex, token) \<in> set COLOR_MAPPINGS"
  shows "CHR ''#'' \<notin> set token \<and> (\<forall>m. map lower m = map lower hex \<longrightarrow> CHR ''#'' \<in> set m)"
proof -
  have "CHR ''#'' \<in> set m" if "map lower m = map lower hex" for m
  proof -
    from that have "map lower m = hex" using table_lower [OF assms] by simp
    from variant_chars [OF assms this] have "m \<noteq> []" "hd m = CHR ''#''" by simp_all
    then show ?thesis by (metis hd_in_set)
  qed
  then show ?thesis using table_token [OF assms] by blast
qed

subsection \<open>A span in its context\<close>

lemma open_span_skip_general:
  "\<forall>d\<in>set u. dot d \<Longrightarrow> \<forall>i<length u. literal hex (drop i u @ s) = None \<Longrightarrow>
   open_span hex (u @ s) = map_option (\<lambda>(g, m, g3, r). (u @ g, m, g3, r)) (open_span hex s)"
proof (induction u)
  case Nil
  then show ?case by (simp add: option.map_ident case_prod_unfold map_option.identity)
next
  case (Cons c u)
  from Cons.prems(2) have "literal hex (drop 0 (c # u) @ s) = None" by blast
  then have n: "literal_then_close hex (c # u @ s) = None"
    by (simp add: literal_then_close_def)
  have "\<forall>i<length u. literal hex (drop i u @ s) = None"
  proof (intro allI impI)
    fix i assume "i < length u"
    then have "Suc i < length (c # u)" by simp
    with Cons.prems(2) have "literal hex (drop (Suc i) (c # u) @ s) = None" by blast
    then show "literal hex (drop i u @ s) = None" by simp
  qed
  with Cons have "open_span hex (u @ s) =
      map_option (\<lambda>(g, m, g3, r). (u @ g, m, g3, r)) (open_span hex s)" by simp
  with n Cons.prems(1) show ?case by (auto split: option.splits)
qed

lemma re_sub_span_general:
  assumes "is_quote q1" "is_quote q2"
    and "\<forall>d\<in>set a. dot d"
    and "\<forall>i<length a. literal hex (drop i a @ x @ post @ q2 # rest) = None"
    and "map lower x = map lower hex"
    and "\<forall>d\<in>set post. \<not> is_quote d \<and> dot d"
  shows "re_sub hex token (q1 # a @ x @ post @ q2 # rest) =
         q1 # a @ token @ post @ q2 # re_sub hex token rest"
proof -
  have "literal_then_close hex (x @ post @ q2 # rest) = Some (x, post @ [q2], rest)"
    using assms(2,5,6) by (simp add: literal_then_close_def literal_match close_span_run)
  then have "open_span hex (x @ post @ q2 # rest) = Some ([], x, post @ [q2], rest)"
    by (rule open_span_hit)
  then have "open_span hex (a @ x @ post @ q2 # rest) = Some (a, x, post @ [q2], rest)"
    using open_span_skip_general [OF assms(3,4)] by simp
  then show ?thesis using assms(1) by simp
qed

lemma occurs_append_left: "occurs hex w \<Longrightarrow> occurs hex (u @ w)"
  by (induction u) auto

lemma occurs_middle:
  "map lower m = map lower hex \<Longrightarrow> occurs hex (u @ m @ v)"
  unfolding occurs_iff by blast

lemma append_eq_split:
  "xs @ ys = m @ r \<Longrightarrow> (\<exists>u. xs = m @ u \<and> u @ ys = r) \<or> (\<exists>u. xs @ u = m \<and> ys = u @ r)"
  by (auto simp: append_eq_append_conv2)

lemma no_start_before:
  assumes "\<not> occurs hex (a @ butlast x)" "map lower x = map lower hex" "x \<noteq> []" "i < length a"
  shows "literal hex (drop i a @ x @ s) = None"
proof (cases "literal hex (drop i a @ x @ s)")
  case None
  then show ?thesis .
next
  case (Some mr)
  obtain m r where mr: "mr = (m, r)" by (cases mr)
  from Some mr literal_decomp [of hex "drop i a @ x @ s" m r]
  have d: "drop i a @ x @ s = m @ r" "map lower m = map lower hex" by simp_all
  have len: "length m = length x"
    using d(2) assms(2) by (metis length_map)
  have x: "x = butlast x @ [last x]" using assms(3) by simp
  have "(drop i a @ butlast x) @ (last x # s) = m @ r"
    using d(1) x by (metis append.assoc append_Cons append_Nil)
  then have "(\<exists>u. drop i a @ butlast x = m @ u \<and> u @ last x # s = r) \<or>
      (\<exists>u. (drop i a @ butlast x) @ u = m \<and> last x # s = u @ r)"
    by (rule append_eq_split)
  then have "\<exists>v. drop i a @ butlast x = m @ v"
  proof
    assume "\<exists>u. drop i a @ butlast x = m @ u \<and> u @ last x # s = r"
    then show ?thesis by blast
  next
    assume "\<exists>u. (drop i a @ butlast x) @ u = m \<and> last x # s = u @ r"
    then obtain u where e: "(drop i a @ butlast x) @ u = m \<and> last x # s = u @ r" by blast
    then have "length (drop i a) + length (butlast x) + length u = length x"
      using len by (metis length_append)
    moreover have "length (butlast x) = length x - 1" by simp
    moreover have "0 < length (drop i a)" using assms(4) by simp
    moreover have "0 < length x" using assms(3) by simp
    ultimately have "u = []" by (cases u) auto
    with e show ?thesis by auto
  qed
  then obtain v where "drop i a @ butlast x = m @ v" by blast
  then have "a @ butlast x = take i a @ m @ v"
    by (metis append.assoc append_take_drop_id)
  then have "occurs hex (a @ butlast x)"
    using occurs_middle [OF d(2), of "take i a" v] by simp
  with assms(1) show ?thesis by simp
qed

lemma re_sub_first_char: "\<exists>r'. re_sub hex token (c # r) = c # r' \<and> (r = [] \<longrightarrow> r' = [])"
proof (cases "match_here hex (c # r)")
  case None
  then show ?thesis by (simp del: match_here.simps)
next
  case (Some y)
  obtain g1 m g3 rest where y: "y = (g1, m, g3, rest)" by (cases y)
  with Some obtain g where g: "g1 = c # g" "r \<noteq> []"
    by (cases r) (auto simp: literal_then_close_Nil split: if_splits option.splits)
  with Some y have "re_sub hex token (c # r) = c # (g @ token @ g3 @ re_sub hex token rest)"
    by (simp del: match_here.simps)
  with g(2) show ?thesis by blast
qed

lemma no_start_span:
  assumes "(h, t) \<in> set COLOR_MAPPINGS" "\<not> occurs h mid" "is_quote q"
  shows "literal h (drop i mid @ q # r) = None"
proof (cases "literal h (drop i mid @ q # r)")
  case None
  then show ?thesis .
next
  case (Some mr)
  obtain m r0 where mr: "mr = (m, r0)" by (cases mr)
  from Some mr literal_decomp [of h "drop i mid @ q # r" m r0]
  have d: "drop i mid @ q # r = m @ r0" "map lower m = map lower h" by simp_all
  then have "map lower m = h" using table_lower [OF assms(1)] by simp
  from variant_chars [OF assms(1) this] have nq: "\<forall>c\<in>set m. \<not> is_quote c" by simp
  from d(1) have "(\<exists>u. drop i mid = m @ u \<and> u @ q # r = r0) \<or>
      (\<exists>u. drop i mid @ u = m \<and> q # r = u @ r0)"
    by (rule append_eq_split)
  then have "\<exists>v. drop i mid = m @ v"
  proof
    assume "\<exists>u. drop i mid = m @ u \<and> u @ q # r = r0"
    then show ?thesis by blast
  next
    assume "\<exists>u. drop i mid @ u = m \<and> q # r = u @ r0"
    then obtain u where e: "drop i mid @ u = m" "q # r = u @ r0" by blast
    have "u = []"
    proof (cases u)
      case Nil
      then show ?thesis .
    next
      case (Cons c cs)
      with e(2) have "c = q" by simp
      with Cons e(1) have "q \<in> set m" by auto
      with nq assms(3) show ?thesis by blast
    qed
    with e(1) show ?thesis by auto
  qed
  then obtain v where "drop i mid = m @ v" by blast
  then have "mid = take i mid @ m @ v" by (metis append_take_drop_id)
  then have "occurs h mid" using occurs_middle [OF d(2), of "take i mid" v] by simp
  with assms(2) show ?thesis by simp
qed

lemma re_sub_keeps_span:
  assumes "(h, t) \<in> set COLOR_MAPPINGS" "is_quote q1" "is_quote q2"
    and "\<forall>d\<in>set mid. \<not> is_quote d \<and> dot d" "\<not> occurs h mid"
  shows "\<exists>r'. re_sub h t (q1 # mid @ q2 # r) = q1 # mid @ q2 # r' \<and> (r = [] \<longrightarrow> r' = [])"
proof -
  have dq: "dot q2" using assms(3) by (auto simp: is_quote_def dot_def)
  have dots: "\<forall>d\<in>set (mid @ [q2]). dot d" using assms(4) dq by simp
  have "\<forall>i<length (mid @ [q2]). literal h (drop i (mid @ [q2]) @ r) = None"
  proof (intro allI impI)
    fix i assume "i < length (mid @ [q2])"
    then have "drop i (mid @ [q2]) @ r = drop i mid @ q2 # r" by simp
    then show "literal h (drop i (mid @ [q2]) @ r) = None"
      using no_start_span [OF assms(1,5,3), of i r] by simp
  qed
  from open_span_skip_general [OF dots this]
  have os: "open_span h (mid @ q2 # r) =
      map_option (\<lambda>(g, m, g3, r). ((mid @ [q2]) @ g, m, g3, r)) (open_span h r)"
    by simp
  show ?thesis
  proof (cases "open_span h r")
    case None
    with os assms(2) have "re_sub h t (q1 # mid @ q2 # r) = q1 # re_sub h t (mid @ q2 # r)"
      by simp
    also have "\<dots> = q1 # mid @ re_sub h t (q2 # r)"
      using assms(4) by (simp add: re_sub_no_quote_prefix)
    finally have e: "re_sub h t (q1 # mid @ q2 # r) = q1 # mid @ re_sub h t (q2 # r)" .
    obtain r' where "re_sub h t (q2 # r) = q2 # r'" "r = [] \<longrightarrow> r' = []"
      using re_sub_first_char [of h t q2 r] by blast
    with e show ?thesis by simp
  next
    case (Some y)
    obtain g m g3 rest where y: "y = (g, m, g3, rest)" by (cases y)
    with Some os assms(2)
    have "re_sub h t (q1 # mid @ q2 # r) = q1 # mid @ q2 # (g @ t @ g3 @ re_sub h t rest)"
      by simp
    moreover from Some have "r \<noteq> []" by (cases r) (auto simp: literal_then_close_Nil)
    ultimately show ?thesis by blast
  qed
qed

lemma apply_mappings_keeps_span:
  assumes "is_quote q1" "is_quote q2" "\<forall>d\<in>set mid. \<not> is_quote d \<and> dot d"
    and "\<forall>(h, t)\<in>set table. (h, t) \<in> set COLOR_MAPPINGS \<and> \<not> occurs h mid"
  shows "\<exists>r'. apply_mappings table (q1 # mid @ q2 # r) = q1 # mid @ q2 # r' \<and> (r = [] \<longrightarrow> r' = [])"
  using assms(4)
proof (induction table arbitrary: r)
  case Nil
  then show ?case by (simp add: apply_mappings_Nil)
next
  case (Cons rule table)
  obtain h t where rule: "rule = (h, t)" by (cases rule)
  with Cons.prems have 1: "(h, t) \<in> set COLOR_MAPPINGS" "\<not> occurs h mid" by simp_all
  from Cons.prems have 2: "\<forall>(h, t)\<in>set table. (h, t) \<in> set COLOR_MAPPINGS \<and> \<not> occurs h mid"
    by simp
  obtain r1 where r1: "re_sub h t (q1 # mid @ q2 # r) = q1 # mid @ q2 # r1" "r = [] \<longrightarrow> r1 = []"
    using re_sub_keeps_span [OF 1(1) assms(1,2,3) 1(2), of r] by blast
  obtain r2 where r2: "apply_mappings table (q1 # mid @ q2 # r1) = q1 # mid @ q2 # r2"
    "r1 = [] \<longrightarrow> r2 = []"
    using Cons.IH [OF 2, of r1] by blast
  from r1 r2 have "apply_mappings (rule # table) (q1 # mid @ q2 # r) = q1 # mid @ q2 # r2 \<and>
      (r = [] \<longrightarrow> r2 = [])"
    by (simp add: rule apply_mappings_Cons)
  then show ?case by blast
qed

lemma table_no_v:
  "(hex, token) \<in> set COLOR_MAPPINGS \<Longrightarrow>
   CHR ''v'' \<notin> set hex \<and> token \<noteq> [] \<and> hd token = CHR ''v''"
  by (auto simp: COLOR_MAPPINGS_def)

lemma occurs_through_token:
  assumes "(h, t) \<in> set COLOR_MAPPINGS" "(hex, token) \<in> set COLOR_MAPPINGS"
    and "occurs h (a @ token @ w)"
  shows "occurs h (a @ x @ w)"
  using assms(3)
proof (induction a)
  case Nil
  then have "occurs h w"
    using occurs_table_skip [OF assms(1), of token w] table_token [OF assms(2)] by simp
  then show ?case using occurs_append_left [of h w x] by simp
next
  case (Cons c a)
  from Cons.prems consider "literal h (c # a @ token @ w) \<noteq> None" | "occurs h (a @ token @ w)"
    by auto
  then show ?case
  proof cases
    case 2
    with Cons.IH show ?thesis by simp
  next
    case 1
    then obtain m r where s: "literal h ((c # a) @ token @ w) = Some (m, r)" by auto
    from literal_decomp [OF s] have d: "(c # a) @ token @ w = m @ r" "map lower m = map lower h"
      by simp_all
    from d(1) have "(\<exists>u. c # a = m @ u \<and> u @ token @ w = r) \<or>
        (\<exists>u. (c # a) @ u = m \<and> token @ w = u @ r)"
      by (rule append_eq_split)
    then have "\<exists>v. c # a = m @ v"
    proof
      assume "\<exists>u. c # a = m @ u \<and> u @ token @ w = r"
      then show ?thesis by blast
    next
      assume "\<exists>u. (c # a) @ u = m \<and> token @ w = u @ r"
      then obtain u where e: "(c # a) @ u = m" "token @ w = u @ r" by blast
      have "u = []"
      proof (cases u)
        case Nil
        then show ?thesis .
      next
        case (Cons k ks)
        from table_no_v [OF assms(2)] obtain ts where "token = CHR ''v'' # ts"
          by (cases token) auto
        with e(2) Cons have "k = CHR ''v''" by simp
        with Cons e(1) have "CHR ''v'' \<in> set m" by auto
        then have "lower (CHR ''v'') \<in> set (map lower m)" by (simp only: set_map image_eqI)
        then have "CHR ''v'' \<in> set h"
          using d(2) table_lower [OF assms(1)] by simp
        with table_no_v [OF assms(1)] show ?thesis by simp
      qed
      with e(1) show ?thesis by auto
    qed
    then obtain v where "c # a = m @ v" by blast
    then have "literal h ((c # a) @ x @ w) = Some (m, v @ x @ w)"
      using literal_match [OF d(2), of "v @ x @ w"] by simp
    then show ?thesis by simp
  qed
qed

lemma apply_mappings_no_quote_prefix:
  "\<forall>d\<in>set p. \<not> is_quote d \<Longrightarrow> apply_mappings table (p @ s) = p @ apply_mappings table s"
proof (induction table arbitrary: s)
  case Nil
  show ?case by (simp add: apply_mappings_Nil)
next
  case (Cons rule table)
  obtain h t where "rule = (h, t)" by (cases rule)
  with Cons show ?case by (simp add: apply_mappings_Cons re_sub_no_quote_prefix)
qed

lemma apply_mappings_newline:
  "\<forall>(h, t)\<in>set table. CHR 0x0A \<notin> set h \<Longrightarrow>
   apply_mappings table (s @ CHR 0x0A # u) =
   apply_mappings table s @ CHR 0x0A # apply_mappings table u"
proof (induction table arbitrary: s u)
  case Nil
  show ?case by (simp add: apply_mappings_Nil)
next
  case (Cons rule table)
  obtain h t where "rule = (h, t)" by (cases rule)
  with Cons show ?case by (simp add: apply_mappings_Cons re_sub_newline)
qed

lemma span_one_pass:
  assumes "(hex, token) \<in> set COLOR_MAPPINGS" "is_quote q1" "is_quote q2"
    and "\<forall>d\<in>set a. dot d" "\<not> occurs hex (a @ butlast x)" "map lower x = hex"
    and "\<forall>d\<in>set post. \<not> is_quote d \<and> dot d"
  shows "re_sub hex token (q1 # a @ x @ post @ q2 # rest) =
         q1 # a @ token @ post @ q2 # re_sub hex token rest"
proof -
  have l: "map lower x = map lower hex" using assms(6) table_lower [OF assms(1)] by simp
  have ne: "x \<noteq> []" using variant_chars [OF assms(1,6)] by simp
  have "\<forall>i<length a. literal hex (drop i a @ x @ post @ q2 # rest) = None"
    using no_start_before [OF assms(5) l ne] by blast
  with assms(2,3,4) show ?thesis using l assms(7) by (intro re_sub_span_general)
qed

lemma span_whole_run:
  assumes r: "(hex, token) \<in> set COLOR_MAPPINGS" and q: "is_quote q1" "is_quote q2"
    and x: "map lower x1 = hex" "map lower x2 = hex"
    and abc: "\<forall>d\<in>set (a @ b @ c). \<not> is_quote d \<and> dot d"
    and first: "\<not> occurs hex (a @ butlast x1)"
    and others: "\<forall>(h, t)\<in>set COLOR_MAPPINGS. h \<noteq> hex \<longrightarrow> \<not> occurs h (a @ x1 @ b @ x2 @ c)"
  shows "\<exists>rest'. apply_mappings COLOR_MAPPINGS (q1 # a @ x1 @ b @ x2 @ c @ q2 # rest) =
           q1 # a @ token @ b @ x2 @ c @ q2 # rest' \<and> (rest = [] \<longrightarrow> rest' = [])"
proof -
  let ?mid0 = "a @ x1 @ b @ x2 @ c"
  let ?mid1 = "a @ token @ b @ x2 @ c"
  obtain t1 t2 where sp: "COLOR_MAPPINGS = t1 @ (hex, token) # t2"
    "\<forall>(h, t)\<in>set (t1 @ t2). h \<noteq> hex"
    using table_split [OF r table_distinct] by blast
  have "set COLOR_MAPPINGS = set (t1 @ (hex, token) # t2)"
    using sp(1) by (rule arg_cong)
  then have mem: "(h, t) \<in> set COLOR_MAPPINGS" if "(h, t) \<in> set (t1 @ t2)" for h t
    using that by auto
  have m0: "\<forall>d\<in>set ?mid0. \<not> is_quote d \<and> dot d"
    using abc variant_chars [OF r x(1)] variant_chars [OF r x(2)] by auto
  have m1: "\<forall>d\<in>set ?mid1. \<not> is_quote d \<and> dot d"
    using abc table_token_chars [OF r] variant_chars [OF r x(2)] by auto
  have o1: "\<forall>(h, t)\<in>set t1. (h, t) \<in> set COLOR_MAPPINGS \<and> \<not> occurs h ?mid0"
  proof (intro ballI)
    fix p assume p: "p \<in> set t1"
    obtain h t where e: "p = (h, t)" by (cases p)
    from p e have i: "(h, t) \<in> set COLOR_MAPPINGS" using mem by simp
    from p e sp(2) have "h \<noteq> hex" by auto
    with i others have "\<not> occurs h ?mid0" by blast
    with i e show "case p of (h, t) \<Rightarrow> (h, t) \<in> set COLOR_MAPPINGS \<and> \<not> occurs h ?mid0"
      by simp
  qed
  have o2: "\<forall>(h, t)\<in>set t2. (h, t) \<in> set COLOR_MAPPINGS \<and> \<not> occurs h ?mid1"
  proof (intro ballI)
    fix p assume p: "p \<in> set t2"
    obtain h t where e: "p = (h, t)" by (cases p)
    from p e have i: "(h, t) \<in> set COLOR_MAPPINGS" using mem by simp
    from p e sp(2) have "h \<noteq> hex" by auto
    with i others have "\<not> occurs h (a @ x1 @ (b @ x2 @ c))" by blast
    then have "\<not> occurs h (a @ token @ (b @ x2 @ c))"
      using occurs_through_token [OF i r, of a "b @ x2 @ c" x1] by blast
    with i e show "case p of (h, t) \<Rightarrow> (h, t) \<in> set COLOR_MAPPINGS \<and> \<not> occurs h ?mid1"
      by simp
  qed
  obtain r1 where r1: "apply_mappings t1 (q1 # ?mid0 @ q2 # rest) = q1 # ?mid0 @ q2 # r1"
    "rest = [] \<longrightarrow> r1 = []"
    using apply_mappings_keeps_span [OF q m0 o1, of rest] by blast
  have bc: "\<forall>d\<in>set (b @ x2 @ c). \<not> is_quote d \<and> dot d" using m0 by simp
  have da: "\<forall>d\<in>set a. dot d" using abc by simp
  have one: "re_sub hex token (q1 # a @ x1 @ (b @ x2 @ c) @ q2 # r1) =
      q1 # a @ token @ (b @ x2 @ c) @ q2 # re_sub hex token r1"
    using r q da first x(1) bc by (rule span_one_pass)
  obtain r3 where r3: "apply_mappings t2 (q1 # ?mid1 @ q2 # re_sub hex token r1) =
      q1 # ?mid1 @ q2 # r3" "re_sub hex token r1 = [] \<longrightarrow> r3 = []"
    using apply_mappings_keeps_span [OF q m1 o2, of "re_sub hex token r1"] by blast
  have "apply_mappings COLOR_MAPPINGS (q1 # ?mid0 @ q2 # rest) =
      apply_mappings t2 (re_sub hex token (apply_mappings t1 (q1 # ?mid0 @ q2 # rest)))"
    by (subst (1) sp(1)) (simp add: apply_mappings_append apply_mappings_Cons)
  also have "\<dots> = q1 # ?mid1 @ q2 # r3"
    using r1(1) one r3(1) by simp
  finally have "apply_mappings COLOR_MAPPINGS (q1 # a @ x1 @ b @ x2 @ c @ q2 # rest) =
      q1 # a @ token @ b @ x2 @ c @ q2 # r3"
    by simp
  moreover have "rest = [] \<longrightarrow> r3 = []" using r1(2) r3(2) by auto
  ultimately show ?thesis by blast
qed

lemma table_newlines: "\<forall>(h, t)\<in>set COLOR_MAPPINGS. CHR 0x0A \<notin> set h"
  using table_newline by blast

section \<open>The claims\<close>

subsection \<open>C2: where a literal is replaced\<close>

text \<open>
  C2, as stated, says that a literal is replaced only inside a span delimited by matching
  quote characters, and never outside a quoted string. The pattern asks for \<open>["']\<close> on
  either side and nothing more: in the first text below the literal stands between a
  double quote and a single quote, and each of the two quote characters occurs once; in
  the second it stands between two complete strings, outside both. Both are rewritten.
\<close>

theorem re_sub_mismatched_quotes:
  "count_list (CHR 0x22 # ''#1e1e1e'' @ [CHR 0x27]) (CHR 0x22) = 1 \<and>
   count_list (CHR 0x22 # ''#1e1e1e'' @ [CHR 0x27]) (CHR 0x27) = 1 \<and>
   re_sub ''#1e1e1e'' ''var(--color-bg-primary)'' (CHR 0x22 # ''#1e1e1e'' @ [CHR 0x27]) =
     CHR 0x22 # ''var(--color-bg-primary)'' @ [CHR 0x27] \<and>
   re_sub ''#1e1e1e'' ''var(--color-bg-primary)'' ''f(\"a\") + #1e1e1e + g(\"b\")'' =
     ''f(\"a\") + var(--color-bg-primary) + g(\"b\")''"
  by (simp add: is_quote_def dot_def literal_then_close_def)

text \<open>
  C2, amended: for every rule of the table the substitution works line by line, and on
  a line it leaves the text before the first quote character and the text after the last
  quote character as they are. So a literal is never replaced unless a quote character
  (single or double, not necessarily the same one) stands before it and another after it
  on its own line.
\<close>

theorem re_sub_scope:
  assumes "(hex, token) \<in> set COLOR_MAPPINGS"
  shows "((\<forall>c\<in>set a. \<not> is_quote c) \<longrightarrow> re_sub hex token (a @ s) = a @ re_sub hex token s) \<and>
         ((\<forall>c\<in>set z. \<not> is_quote c) \<longrightarrow> re_sub hex token (s @ z) = re_sub hex token s @ z) \<and>
         re_sub hex token (s @ CHR 0x0A # t) = re_sub hex token s @ CHR 0x0A # re_sub hex token t"
  using table_newline [OF assms]
  by (simp add: re_sub_no_quote_prefix re_sub_no_quote_suffix re_sub_newline)

theorem re_sub_scope_witness:
  "re_sub ''#1e1e1e'' ''var(--color-bg-primary)'' (''x = #1e1e1e; '' @ ''y = \"#1e1e1e\"'') =
     ''x = #1e1e1e; '' @ ''y = \"var(--color-bg-primary)\"'' \<and>
   re_sub ''#1e1e1e'' ''var(--color-bg-primary)'' (''y = \"#1e1e1e\"'' @ ''; // #1e1e1e'') =
     ''y = \"var(--color-bg-primary)\"'' @ ''; // #1e1e1e'' \<and>
   re_sub ''#1e1e1e'' ''var(--color-bg-primary)'' (''a = \"x'' @ CHR 0x0A # ''#1e1e1e\"'') =
     ''a = \"x'' @ CHR 0x0A # ''#1e1e1e\"''"
proof -
  have m: "(''#1e1e1e'', ''var(--color-bg-primary)'') \<in> set COLOR_MAPPINGS"
    by (simp add: COLOR_MAPPINGS_def)
  have v: "re_sub ''#1e1e1e'' ''var(--color-bg-primary)'' ''y = \"#1e1e1e\"'' =
             ''y = \"var(--color-bg-primary)\"''"
          "re_sub ''#1e1e1e'' ''var(--color-bg-primary)'' ''a = \"x'' = ''a = \"x''"
          "re_sub ''#1e1e1e'' ''var(--color-bg-primary)'' ''#1e1e1e\"'' = ''#1e1e1e\"''"
    by (simp_all add: is_quote_def dot_def literal_then_close_def)
  have q: "\<forall>c\<in>set ''x = #1e1e1e; ''. \<not> is_quote c" "\<forall>c\<in>set ''; // #1e1e1e''. \<not> is_quote c"
    by (simp_all add: is_quote_def)
  show ?thesis
    using re_sub_scope [OF m, where a = "''x = #1e1e1e; ''" and s = "''y = \"#1e1e1e\"''"
        and z = "''; // #1e1e1e''" and t = "[]"]
      re_sub_scope [OF m, where a = "[]" and s = "''a = \"x''" and z = "[]" and t = "''#1e1e1e\"''"]
      q v
    by simp
qed

subsection \<open>C3: which literals a rule replaces\<close>

text \<open>
  C3, as stated, says that a quoted literal with an extra hex digit is never replaced, in
  whole or in part, by the rule of the six-digit value, and that a quoted literal in
  another letter case is replaced. The pattern has no boundary after the literal: in the
  first text below the seven characters are replaced and the extra digit is kept. And a
  quoted literal is not replaced wherever it stands: in the second text the match that
  starts at the single quote ends at the double quote that opens \<open>"#1E1E1E"\<close>, and
  the quoted literal in capitals stays.
\<close>

theorem re_sub_extra_digit:
  "re_sub ''#1e1e1e'' ''var(--color-bg-primary)'' ''\"#1e1e1e0\"'' = ''\"var(--color-bg-primary)0\"'' \<and>
   re_sub ''#1e1e1e'' ''var(--color-bg-primary)'' (CHR 0x27 # ''#1e1e1e \"#1E1E1E\"'') =
     CHR 0x27 # ''var(--color-bg-primary) \"#1E1E1E\"''"
  by (simp add: is_quote_def dot_def literal_then_close_def)

text \<open>
  C3, amended: for every rule of the table and every text, on a line (the first line of
  the text or a later one) whose first quote character is followed, with no newline
  between, by a first occurrence of the rule's literal in any letter case and then,
  with no quote and no newline between, by a quote character, that occurrence is replaced
  by the token; the text between it and the closing quote (extra hex digits, for one) is
  kept after the token, and the scan goes on after the closing quote. A text in which
  the whole literal occurs nowhere, in any letter case (a literal with a digit missing,
  for one), is left unchanged by the rule.
\<close>

theorem re_sub_exact:
  assumes "(hex, token) \<in> set COLOR_MAPPINGS"
  shows "((\<forall>d\<in>set p. \<not> is_quote d) \<and> is_quote q1 \<and> is_quote q2 \<and> (\<forall>d\<in>set a. dot d) \<and>
          \<not> occurs hex (a @ butlast x) \<and> map lower x = hex \<and>
          (\<forall>d\<in>set post. \<not> is_quote d \<and> dot d)
            \<longrightarrow> re_sub hex token (p @ q1 # a @ x @ post @ q2 # rest) =
                  p @ q1 # a @ token @ post @ q2 # re_sub hex token rest \<and>
                re_sub hex token (before @ CHR 0x0A # p @ q1 # a @ x @ post @ q2 # rest) =
                  re_sub hex token before @ CHR 0x0A #
                    p @ q1 # a @ token @ post @ q2 # re_sub hex token rest) \<and>
         (\<not> occurs hex s \<longrightarrow> re_sub hex token s = s)"
proof (intro conjI impI)
  assume h: "(\<forall>d\<in>set p. \<not> is_quote d) \<and> is_quote q1 \<and> is_quote q2 \<and> (\<forall>d\<in>set a. dot d) \<and>
          \<not> occurs hex (a @ butlast x) \<and> map lower x = hex \<and>
          (\<forall>d\<in>set post. \<not> is_quote d \<and> dot d)"
  then have one: "re_sub hex token (q1 # a @ x @ post @ q2 # rest) =
      q1 # a @ token @ post @ q2 # re_sub hex token rest"
    by (intro span_one_pass [OF assms]) simp_all
  with h show l1: "re_sub hex token (p @ q1 # a @ x @ post @ q2 # rest) =
      p @ q1 # a @ token @ post @ q2 # re_sub hex token rest"
    by (simp add: re_sub_no_quote_prefix)
  then show "re_sub hex token (before @ CHR 0x0A # p @ q1 # a @ x @ post @ q2 # rest) =
      re_sub hex token before @ CHR 0x0A #
        p @ q1 # a @ token @ post @ q2 # re_sub hex token rest"
    using table_newline [OF assms] by (simp add: re_sub_newline)
next
  assume "\<not> occurs hex s"
  then show "re_sub hex token s = s"
    by (rule re_sub_no_occurrence)
qed

theorem re_sub_exact_witness:
  "re_sub ''#1e1e1e'' ''var(--color-bg-primary)'' ''\"#1E1E1E\"'' = ''\"var(--color-bg-primary)\"'' \<and>
   re_sub ''#1e1e1e'' ''var(--color-bg-primary)'' ''\"#1e1e1\"'' = ''\"#1e1e1\"'' \<and>
   re_sub ''#1e1e1e'' ''var(--color-bg-primary)''
       (''// #1e1e1e'' @ CHR 0x0A # ''color: '' @ CHR 0x22 # ''#fff '' @ ''#1E1e1E'' @ ''0''
          @ CHR 0x22 # '';'') =
     ''// #1e1e1e'' @ CHR 0x0A # ''color: '' @ CHR 0x22 # ''#fff '' @ ''var(--color-bg-primary)''
          @ ''0'' @ CHR 0x22 # '';''"
proof -
  have m: "(''#1e1e1e'', ''var(--color-bg-primary)'') \<in> set COLOR_MAPPINGS"
    by (simp add: COLOR_MAPPINGS_def)
  have a: "is_quote (CHR 0x22)" "map lower ''#1E1E1E'' = ''#1e1e1e''"
    "map lower ''#1E1e1E'' = ''#1e1e1e''"
    "\<not> occurs ''#1e1e1e'' ''\"#1e1e1\"''"
    "\<not> occurs ''#1e1e1e'' ([] @ butlast ''#1E1E1E'')"
    "\<not> occurs ''#1e1e1e'' (''#fff '' @ butlast ''#1E1e1E'')"
    "\<forall>d\<in>set ''color: ''. \<not> is_quote d" "\<forall>d\<in>set ''#fff ''. dot d"
    "\<forall>d\<in>set ''0''. \<not> is_quote d \<and> dot d"
    by (simp_all add: is_quote_def dot_def)
  have r: "re_sub ''#1e1e1e'' ''var(--color-bg-primary)'' '';'' = '';''"
    "re_sub ''#1e1e1e'' ''var(--color-bg-primary)'' ''// #1e1e1e'' = ''// #1e1e1e''"
    by (simp_all add: is_quote_def)
  show ?thesis
    using re_sub_exact [OF m, where p = "[]" and ?q1.0 = "CHR 0x22" and ?q2.0 = "CHR 0x22"
        and a = "[]" and x = "''#1E1E1E''" and post = "[]" and rest = "[]"
        and s = "''\"#1e1e1\"''" and before = "[]"]
      re_sub_exact [OF m, where p = "''color: ''" and ?q1.0 = "CHR 0x22" and ?q2.0 = "CHR 0x22"
        and a = "''#fff ''" and x = "''#1E1e1E''" and post = "''0''" and rest = "'';''"
        and s = "[]" and before = "''// #1e1e1e''"]
      a r
    by simp
qed

subsection \<open>C7: the root directory is missing\<close>

text \<open>
  C7: when the root directory does not exist, the one line
  \<open>Error: Directory not found: <path>\<close> is printed and the program returns: the files
  are as they were, nothing is written, and neither the completion line nor the two
  counters are printed.
\<close>

theorem main_missing_root:
  "main program_dir None fs =
     \<lparr>files = fs,
      stdout = [''Error: Directory not found: '' @ base_dir_of program_dir],
      writes = []\<rparr>"
  by (simp add: main_def print_def)

subsection \<open>C5: when a file counts as updated\<close>




subsection \<open>C6: a file that cannot be read or written\<close>

text \<open>
  C6: when reading a candidate file fails, or its text changes and writing fails, the
  line \<open>Error processing <path>: <message>\<close> is printed, \<open>files_processed\<close> is one
  more (it is incremented before the file is opened), \<open>files_updated\<close> is as before, and
  the loop goes on with the next path from that state.
\<close>

theorem visit_failure_continues:
  assumes "\<not> skip (joinpath base_dir rel)"
    and "read_result (files (world_of r) (joinpath base_dir rel)) = Inl e \<or>
         (\<exists>c. read_result (files (world_of r) (joinpath base_dir rel)) = Inr c \<and>
              apply_mappings COLOR_MAPPINGS c \<noteq> c \<and>
              write_error (files (world_of r) (joinpath base_dir rel)) = Some e)"
  shows "visit skip base_dir r rel =
           r\<lparr>files_processed := files_processed r + 1,
             world_of := print (''Error processing '' @ joinpath base_dir rel @ '': '' @ message e)
                           (world_of r)\<rparr> \<and>
         files_updated (visit skip base_dir r rel) = files_updated r \<and>
         foldl (visit skip base_dir) r (rel # rest) =
           foldl (visit skip base_dir)
             (r\<lparr>files_processed := files_processed r + 1,
                world_of := print (''Error processing '' @ joinpath base_dir rel @ '': '' @ message e)
                              (world_of r)\<rparr>) rest"
proof -
  have "process_file (joinpath base_dir rel) (world_of r) =
          (False, print (''Error processing '' @ joinpath base_dir rel @ '': '' @ message e) (world_of r))"
    using assms(2) by (auto simp: process_file_def write_file_def Let_def)
  then have "visit skip base_dir r rel =
           r\<lparr>files_processed := files_processed r + 1,
             world_of := print (''Error processing '' @ joinpath base_dir rel @ '': '' @ message e)
                           (world_of r)\<rparr>"
    using assms(1) by (simp add: visit_def Let_def)
  then show ?thesis by simp
qed

theorem visit_failure_continues_witness:
  "visit skip_tsx ''src'' \<lparr>files_processed = 0, files_updated = 0,
       world_of = \<lparr>files = unreadable, stdout = [], writes = []\<rparr>\<rparr> ''a.tsx'' =
     \<lparr>files_processed = 1, files_updated = 0,
      world_of = \<lparr>files = unreadable, stdout = [''Error processing src/a.tsx: Is a directory''],
                  writes = []\<rparr>\<rparr>"
proof -
  have "\<not> skip_tsx (joinpath ''src'' ''a.tsx'')"
    by (simp add: skip_tsx_def joinpath_def parts_def)
  moreover have "read_result (unreadable (joinpath ''src'' ''a.tsx'')) = Inl (IOError ''Is a directory'')"
    by (simp add: unreadable_def)
  ultimately show ?thesis
    using visit_failure_continues [of skip_tsx "''src''" "''a.tsx''"
        "\<lparr>files_processed = 0, files_updated = 0,
          world_of = \<lparr>files = unreadable, stdout = [], writes = []\<rparr>\<rparr>" "IOError ''Is a directory''" "[]"]
    by (simp add: print_def joinpath_def)
qed

subsection \<open>C8: the two counters\<close>

text \<open>
  C8: after every turn of either loop \<open>files_updated\<close> is at most \<open>files_processed\<close>,
  and at the end of the run \<open>files_updated\<close> is the number of distinct lines
  \<open>Updated: <relative path>\<close> that were printed. The tree lists every path once.
\<close>

theorem counters_invariant:
  assumes "distinct tree"
  shows "(\<forall>n. files_updated (foldl (visit skip_tsx (base_dir_of program_dir))
                  \<lparr>files_processed = 0, files_updated = 0,
                   world_of = \<lparr>files = fs, stdout = [], writes = []\<rparr>\<rparr>
                  (take n (rglob ''*.tsx'' tree)))
             \<le> files_processed (foldl (visit skip_tsx (base_dir_of program_dir))
                  \<lparr>files_processed = 0, files_updated = 0,
                   world_of = \<lparr>files = fs, stdout = [], writes = []\<rparr>\<rparr>
                  (take n (rglob ''*.tsx'' tree)))) \<and>
         (\<forall>n. files_updated (foldl (visit skip_ts (base_dir_of program_dir))
                  (first_loop (base_dir_of program_dir) tree \<lparr>files = fs, stdout = [], writes = []\<rparr>)
                  (take n (rglob ''*.ts'' tree)))
             \<le> files_processed (foldl (visit skip_ts (base_dir_of program_dir))
                  (first_loop (base_dir_of program_dir) tree \<lparr>files = fs, stdout = [], writes = []\<rparr>)
                  (take n (rglob ''*.ts'' tree)))) \<and>
         files_updated (both_loops (base_dir_of program_dir) tree \<lparr>files = fs, stdout = [], writes = []\<rparr>) =
           card (set (updated_lines (world_of
             (both_loops (base_dir_of program_dir) tree \<lparr>files = fs, stdout = [], writes = []\<rparr>)))) \<and>
         files_updated (both_loops (base_dir_of program_dir) tree \<lparr>files = fs, stdout = [], writes = []\<rparr>) =
           card (set (updated_lines (main program_dir (Some tree) fs)))"
proof -
  let ?w = "\<lparr>files = fs, stdout = [], writes = []\<rparr>"
  have 1: "files_updated (first_loop (base_dir_of program_dir) tree ?w) \<le> files_processed (first_loop (base_dir_of program_dir) tree ?w)"
    unfolding first_loop_def by (rule foldl_visit_counters) simp
  obtain us where u: "distinct us"
    "updated_lines (world_of (both_loops (base_dir_of program_dir) tree ?w)) = map (\<lambda>x. ''Updated: '' @ x) us"
    "files_updated (both_loops (base_dir_of program_dir) tree ?w) = length us"
    using both_loops_lines [OF assms, of "base_dir_of program_dir" fs] by blast
  have "inj_on (\<lambda>x. ''Updated: '' @ x) (set us)"
    by (simp add: inj_on_def)
  with u(1) have "distinct (map (\<lambda>x. ''Updated: '' @ x) us)"
    by (simp add: distinct_map)
  then have "card (set (map (\<lambda>x. ''Updated: '' @ x) us)) = length (map (\<lambda>x. ''Updated: '' @ x) us)"
    by (rule distinct_card)
  then have c: "card (set (updated_lines (world_of (both_loops (base_dir_of program_dir) tree ?w)))) = length us"
    unfolding u(2) by simp
  show ?thesis
    using 1 c u(3) by (simp add: foldl_visit_counters updated_lines_main)
qed

theorem counters_invariant_witness:
  "distinct [''a.tsx'', ''b.ts''] \<and>
   files_updated (both_loops (base_dir_of ''/repo'') [''a.tsx'', ''b.ts'']
      \<lparr>files = writable, stdout = [], writes = []\<rparr>) =
     card (set (updated_lines (main ''/repo'' (Some [''a.tsx'', ''b.ts'']) writable)))"
proof -
  have d: "distinct [''a.tsx'', ''b.ts'']" by simp
  show ?thesis
    using d counters_invariant [OF d, of "''/repo''" writable] by simp
qed

subsection \<open>C10: the two passes\<close>

text \<open>
  C10: no name matches both \<open>*.tsx\<close> and \<open>*.ts\<close>, so no path is yielded by both
  passes; when the tree lists every path once, the paths of the two passes together are
  distinct, and \<open>files_processed\<close> is at most their number.
\<close>

theorem passes_disjoint:
  "\<not> (fnmatch ''*.tsx'' n \<and> fnmatch ''*.ts'' n) \<and>
   set (rglob ''*.tsx'' tree) \<inter> set (rglob ''*.ts'' tree) = {} \<and>
   (distinct tree \<longrightarrow> distinct (rglob ''*.tsx'' tree @ rglob ''*.ts'' tree)) \<and>
   files_processed (both_loops base_dir tree w) \<le>
     length (rglob ''*.tsx'' tree @ rglob ''*.ts'' tree)"
proof -
  have "files_processed (first_loop base_dir tree w) \<le> 0 + length (rglob ''*.tsx'' tree)"
    unfolding first_loop_def
    using foldl_visit_processed
      [of skip_tsx base_dir "\<lparr>files_processed = 0, files_updated = 0, world_of = w\<rparr>"
        "rglob ''*.tsx'' tree"]
    by simp
  moreover have "files_processed (both_loops base_dir tree w) \<le>
      files_processed (first_loop base_dir tree w) + length (rglob ''*.ts'' tree)"
    unfolding both_loops_def by (rule foldl_visit_processed)
  ultimately have "files_processed (both_loops base_dir tree w) \<le>
      length (rglob ''*.tsx'' tree @ rglob ''*.ts'' tree)"
    by simp
  then show ?thesis
    using fnmatch_tsx_ts [of n] rglob_disjoint [of tree] rglob_distinct [of tree] by blast
qed

theorem passes_disjoint_witness:
  "distinct [''a.tsx'', ''lib/b.ts'', ''c.d.ts''] \<and>
   rglob ''*.tsx'' [''a.tsx'', ''lib/b.ts'', ''c.d.ts''] = [''a.tsx''] \<and>
   rglob ''*.ts'' [''a.tsx'', ''lib/b.ts'', ''c.d.ts''] = [''lib/b.ts'', ''c.d.ts''] \<and>
   distinct (rglob ''*.tsx'' [''a.tsx'', ''lib/b.ts'', ''c.d.ts''] @
             rglob ''*.ts'' [''a.tsx'', ''lib/b.ts'', ''c.d.ts''])"
proof -
  have d: "distinct [''a.tsx'', ''lib/b.ts'', ''c.d.ts'']" by simp
  have r: "rglob ''*.tsx'' [''a.tsx'', ''lib/b.ts'', ''c.d.ts''] = [''a.tsx'']"
    "rglob ''*.ts'' [''a.tsx'', ''lib/b.ts'', ''c.d.ts''] = [''lib/b.ts'', ''c.d.ts'']"
    by (simp_all add: rglob_def name_def)
  show ?thesis
    using d r passes_disjoint [of n "[''a.tsx'', ''lib/b.ts'', ''c.d.ts'']" base_dir w] by simp
qed

subsection \<open>C1: declaration files in the second pass\<close>

text \<open>
  C1 says that a file whose name ends in \<open>.d.ts\<close> is skipped by the second pass, and
  the comment of line 79 says so too. The test of line 82 compares \<open>file_path.suffix\<close>
  with \<open>.d.ts\<close>, and a suffix starts at the last dot of the name
  (\<open>suffix_never_d_ts\<close>), so the test never holds and the second pass skips what the
  first one skips (\<open>skip_ts_is_skip_tsx\<close>). The run below, on a tree that holds
  \<open>types.d.ts\<close> with the text \<open>"#1e1e1e"\<close>, counts the file, rewrites it and reports it.
\<close>

theorem main_rewrites_declarations:
  "main ''/repo'' (Some [''types.d.ts'']) writable =
     \<lparr>files = writable
        (''/repo/assemble.ai/src/components/cost-plan/types.d.ts'' :=
           \<lparr>read_result = Inr ''\"var(--color-bg-primary)\"'', write_error = None\<rparr>),
      stdout = [''Updated: types.d.ts'',
                [CHR 0x0A, CHR 0xE2, CHR 0x9C, CHR 0x93] @ '' Processing complete!'',
                ''  Files processed: 1'', ''  Files updated: 1''],
      writes = [(''/repo/assemble.ai/src/components/cost-plan/types.d.ts'',
                 ''\"var(--color-bg-primary)\"'')]\<rparr>"
proof -
  let ?p = "''/repo/assemble.ai/src/components/cost-plan/types.d.ts''"
  let ?w = "\<lparr>files = writable, stdout = [], writes = []\<rparr>"
  let ?w' = "\<lparr>files = writable(?p := \<lparr>read_result = Inr ''\"var(--color-bg-primary)\"'',
                 write_error = None\<rparr>),
              stdout = [], writes = [(?p, ''\"var(--color-bg-primary)\"'')]\<rparr>"
  have g: "rglob ''*.tsx'' [''types.d.ts''] = []" "rglob ''*.ts'' [''types.d.ts''] = [''types.d.ts'']"
    by (simp_all add: rglob_def name_def)
  have j: "joinpath ''/repo/assemble.ai/src/components/cost-plan'' ''types.d.ts'' = ?p"
    by (simp add: joinpath_def)
  have p: "process_file ?p ?w = (True, ?w')"
    by (simp add: process_file_def write_file_def writable_def apply_quoted_1e1e1e Let_def)
  have v: "both_loops ''/repo/assemble.ai/src/components/cost-plan'' [''types.d.ts''] ?w =
      \<lparr>files_processed = 1, files_updated = 1, world_of = print ''Updated: types.d.ts'' ?w'\<rparr>"
    using declarations_not_skipped p
    by (simp add: both_loops_def first_loop_def g visit_def j Let_def del: fun_upd_apply)
  show ?thesis
    by (simp add: main_def base_dir_of_repo v print_def Let_def del: fun_upd_apply)
qed

subsection \<open>C9: two occurrences in one span\<close>

text \<open>
  C9, as stated, says that of two occurrences of a literal in one quoted span the first
  is replaced and the second is not. The first is replaced only when the scan reaches
  the quote that opens the span: in the text below the match that starts at the single
  quote ends at the double quote that opens the span, and both occurrences in the span
  stay, in the pass of the rule and after the whole table.
\<close>

theorem span_first_occurrence_kept:
  "re_sub ''#1e1e1e'' ''var(--color-bg-primary)'' (CHR 0x27 # ''#1e1e1e \"#1e1e1e #1e1e1e\"'') =
     CHR 0x27 # ''var(--color-bg-primary) \"#1e1e1e #1e1e1e\"'' \<and>
   apply_mappings COLOR_MAPPINGS (CHR 0x27 # ''#1e1e1e \"#1e1e1e #1e1e1e\"'') =
     CHR 0x27 # ''var(--color-bg-primary) \"#1e1e1e #1e1e1e\"''"
  by (simp add: COLOR_MAPPINGS_def apply_mappings_Cons apply_mappings_Nil
      is_quote_def dot_def literal_then_close_def)

text \<open>
  C9, amended: take a line (the first line of the text or a later one) whose first quote
  character opens a span that holds no newline and no further quote before the quote
  that closes it, and in the span a first occurrence of a mapped literal, in any letter
  case, and a second one after it. The pass of that rule replaces the first occurrence
  only: the match takes the rest of the span up to the closing quote with it, and the
  scan goes on after that quote. When no literal of another rule occurs in the span,
  the span after the whole table is the span with the first occurrence replaced and the
  second unchanged.
\<close>

theorem second_occurrence_survives:
  assumes "(hex, token) \<in> set COLOR_MAPPINGS"
    and "is_quote q1" "is_quote q2"
    and "map lower x1 = hex" "map lower x2 = hex"
    and "\<forall>d\<in>set p. \<not> is_quote d"
    and "\<forall>d\<in>set (a @ b @ c). \<not> is_quote d \<and> dot d"
    and "\<not> occurs hex (a @ butlast x1)"
  shows "re_sub hex token (p @ q1 # a @ x1 @ b @ x2 @ c @ q2 # rest) =
           p @ q1 # a @ token @ b @ x2 @ c @ q2 # re_sub hex token rest \<and>
         re_sub hex token (before @ CHR 0x0A # p @ q1 # a @ x1 @ b @ x2 @ c @ q2 # rest) =
           re_sub hex token before @ CHR 0x0A #
             p @ q1 # a @ token @ b @ x2 @ c @ q2 # re_sub hex token rest \<and>
         ((\<forall>(h, t)\<in>set COLOR_MAPPINGS. h \<noteq> hex \<longrightarrow> \<not> occurs h (a @ x1 @ b @ x2 @ c)) \<longrightarrow>
          (\<exists>rest'.
             apply_mappings COLOR_MAPPINGS (p @ q1 # a @ x1 @ b @ x2 @ c @ q2 # rest) =
               p @ q1 # a @ token @ b @ x2 @ c @ q2 # rest' \<and>
             apply_mappings COLOR_MAPPINGS
                 (before @ CHR 0x0A # p @ q1 # a @ x1 @ b @ x2 @ c @ q2 # rest) =
               apply_mappings COLOR_MAPPINGS before @ CHR 0x0A #
                 p @ q1 # a @ token @ b @ x2 @ c @ q2 # rest' \<and>
             (rest = [] \<longrightarrow> rest' = [])))"
proof (intro conjI impI)
  have post: "\<forall>d\<in>set (b @ x2 @ c). \<not> is_quote d \<and> dot d"
    using assms(7) variant_chars [OF assms(1,5)] by auto
  have da: "\<forall>d\<in>set a. dot d" using assms(7) by simp
  have one: "re_sub hex token (q1 # a @ x1 @ (b @ x2 @ c) @ q2 # rest) =
      q1 # a @ token @ (b @ x2 @ c) @ q2 # re_sub hex token rest"
    using assms(1,2,3) da assms(8,4) post by (rule span_one_pass)
  show l1: "re_sub hex token (p @ q1 # a @ x1 @ b @ x2 @ c @ q2 # rest) =
      p @ q1 # a @ token @ b @ x2 @ c @ q2 # re_sub hex token rest"
    using one assms(6) by (simp add: re_sub_no_quote_prefix)
  show "re_sub hex token (before @ CHR 0x0A # p @ q1 # a @ x1 @ b @ x2 @ c @ q2 # rest) =
      re_sub hex token before @ CHR 0x0A #
        p @ q1 # a @ token @ b @ x2 @ c @ q2 # re_sub hex token rest"
    using l1 table_newline [OF assms(1)] by (simp add: re_sub_newline)
next
  assume o: "\<forall>(h, t)\<in>set COLOR_MAPPINGS. h \<noteq> hex \<longrightarrow> \<not> occurs h (a @ x1 @ b @ x2 @ c)"
  obtain rest' where r: "apply_mappings COLOR_MAPPINGS (q1 # a @ x1 @ b @ x2 @ c @ q2 # rest) =
      q1 # a @ token @ b @ x2 @ c @ q2 # rest'" "rest = [] \<longrightarrow> rest' = []"
    using span_whole_run [OF assms(1,2,3,4,5,7,8) o, of rest] by blast
  have 1: "apply_mappings COLOR_MAPPINGS (p @ q1 # a @ x1 @ b @ x2 @ c @ q2 # rest) =
      p @ q1 # a @ token @ b @ x2 @ c @ q2 # rest'"
    using r(1) assms(6) by (simp add: apply_mappings_no_quote_prefix)
  have 2: "apply_mappings COLOR_MAPPINGS
        (before @ CHR 0x0A # p @ q1 # a @ x1 @ b @ x2 @ c @ q2 # rest) =
      apply_mappings COLOR_MAPPINGS before @ CHR 0x0A #
        p @ q1 # a @ token @ b @ x2 @ c @ q2 # rest'"
    using 1 by (simp add: apply_mappings_newline [OF table_newlines])
  from 1 2 r(2) show "\<exists>rest'.
      apply_mappings COLOR_MAPPINGS (p @ q1 # a @ x1 @ b @ x2 @ c @ q2 # rest) =
        p @ q1 # a @ token @ b @ x2 @ c @ q2 # rest' \<and>
      apply_mappings COLOR_MAPPINGS
          (before @ CHR 0x0A # p @ q1 # a @ x1 @ b @ x2 @ c @ q2 # rest) =
        apply_mappings COLOR_MAPPINGS before @ CHR 0x0A #
          p @ q1 # a @ token @ b @ x2 @ c @ q2 # rest' \<and>
      (rest = [] \<longrightarrow> rest' = [])"
    by blast
qed

theorem second_occurrence_survives_witness:
  "re_sub ''#1e1e1e'' ''var(--color-bg-primary)''
     (''className='' @ CHR 0x22 # ''bg-[#fff] bg-['' @ ''#1e1e1e'' @ ''] text-['' @ ''#1E1E1E''
        @ '']'' @ CHR 0x22 # '' id=\"x\"'') =
     ''className='' @ CHR 0x22 # ''bg-[#fff] bg-['' @ ''var(--color-bg-primary)'' @ ''] text-[''
        @ ''#1E1E1E'' @ '']'' @ CHR 0x22 # '' id=\"x\"'' \<and>
   (\<exists>rest'. apply_mappings COLOR_MAPPINGS
       (''className='' @ CHR 0x22 # ''bg-[#fff] bg-['' @ ''#1e1e1e'' @ ''] text-['' @ ''#1E1E1E''
          @ '']'' @ CHR 0x22 # '' id=\"x\"'') =
     ''className='' @ CHR 0x22 # ''bg-[#fff] bg-['' @ ''var(--color-bg-primary)'' @ ''] text-[''
        @ ''#1E1E1E'' @ '']'' @ CHR 0x22 # rest')"
proof -
  have m: "(''#1e1e1e'', ''var(--color-bg-primary)'') \<in> set COLOR_MAPPINGS"
    by (simp add: COLOR_MAPPINGS_def)
  have q: "is_quote (CHR 0x22)" by (simp add: is_quote_def)
  have x: "map lower ''#1e1e1e'' = ''#1e1e1e''" "map lower ''#1E1E1E'' = ''#1e1e1e''"
    by simp_all
  have p: "\<forall>d\<in>set ''className=''. \<not> is_quote d" by (simp add: is_quote_def)
  have c: "\<forall>d\<in>set (''bg-[#fff] bg-['' @ ''] text-['' @ '']''). \<not> is_quote d \<and> dot d"
    by (simp add: is_quote_def dot_def)
  have f: "\<not> occurs ''#1e1e1e'' (''bg-[#fff] bg-['' @ butlast ''#1e1e1e'')"
    by simp
  have o: "\<forall>(h, t)\<in>set COLOR_MAPPINGS. h \<noteq> ''#1e1e1e'' \<longrightarrow>
      \<not> occurs h (''bg-[#fff] bg-['' @ ''#1e1e1e'' @ ''] text-['' @ ''#1E1E1E'' @ '']'')"
    by (simp add: COLOR_MAPPINGS_def)
  have r: "re_sub ''#1e1e1e'' ''var(--color-bg-primary)'' '' id=\"x\"'' = '' id=\"x\"''"
    by (simp add: is_quote_def dot_def literal_then_close_def)
  note t = second_occurrence_survives [OF m q q x p c f, of "'' id=\"x\"''" "[]"]
  from t have "re_sub ''#1e1e1e'' ''var(--color-bg-primary)''
     (''className='' @ CHR 0x22 # ''bg-[#fff] bg-['' @ ''#1e1e1e'' @ ''] text-['' @ ''#1E1E1E''
        @ '']'' @ CHR 0x22 # '' id=\"x\"'') =
     ''className='' @ CHR 0x22 # ''bg-[#fff] bg-['' @ ''var(--color-bg-primary)'' @ ''] text-[''
        @ ''#1E1E1E'' @ '']'' @ CHR 0x22 #
        re_sub ''#1e1e1e'' ''var(--color-bg-primary)'' '' id=\"x\"''"
    by (rule conjunct1)
  then have 1: "re_sub ''#1e1e1e'' ''var(--color-bg-primary)''
     (''className='' @ CHR 0x22 # ''bg-[#fff] bg-['' @ ''#1e1e1e'' @ ''] text-['' @ ''#1E1E1E''
        @ '']'' @ CHR 0x22 # '' id=\"x\"'') =
     ''className='' @ CHR 0x22 # ''bg-[#fff] bg-['' @ ''var(--color-bg-primary)'' @ ''] text-[''
        @ ''#1E1E1E'' @ '']'' @ CHR 0x22 # '' id=\"x\"''"
    unfolding r .
  from t o have "\<exists>rest'. apply_mappings COLOR_MAPPINGS
       (''className='' @ CHR 0x22 # ''bg-[#fff] bg-['' @ ''#1e1e1e'' @ ''] text-['' @ ''#1E1E1E''
          @ '']'' @ CHR 0x22 # '' id=\"x\"'') =
     ''className='' @ CHR 0x22 # ''bg-[#fff] bg-['' @ ''var(--color-bg-primary)'' @ ''] text-[''
        @ ''#1E1E1E'' @ '']'' @ CHR 0x22 # rest'"
    by blast
  with 1 show ?thesis by (rule conjI)
qed

subsection \<open>C4: running the table twice\<close>

text \<open>
  C4, as stated, says that applying the table to an already rewritten text changes
  nothing. A span that holds the same literal twice is rewritten once by each run (see
  C9): the first run turns \<open>"#1e1e1e #1e1e1e"\<close> into
  \<open>"var(--color-bg-primary) #1e1e1e"\<close>, and the second run rewrites that again.
\<close>

theorem apply_mappings_twice_counterexample:
  "apply_mappings COLOR_MAPPINGS (apply_mappings COLOR_MAPPINGS ''\"#1e1e1e #1e1e1e\"'') \<noteq>
   apply_mappings COLOR_MAPPINGS ''\"#1e1e1e #1e1e1e\"''"
proof -
  have 1: "apply_mappings COLOR_MAPPINGS ''\"#1e1e1e #1e1e1e\"'' =
      ''\"var(--color-bg-primary) #1e1e1e\"''"
    by (simp add: COLOR_MAPPINGS_def apply_mappings_Cons apply_mappings_Nil
        is_quote_def dot_def literal_then_close_def)
  have 2: "apply_mappings COLOR_MAPPINGS ''\"var(--color-bg-primary) #1e1e1e\"'' =
      ''\"var(--color-bg-primary) var(--color-bg-primary)\"''"
    by (simp add: COLOR_MAPPINGS_def apply_mappings_Cons apply_mappings_Nil
        is_quote_def dot_def literal_then_close_def)
  show ?thesis unfolding 1 2 by simp
qed

text \<open>
  C4, amended: applying the whole table to the result of applying it once yields the
  same text again if and only if the text rewritten once holds, for no rule of the
  table, the rule's literal between two quote characters on one line. For such a text a
  second run of \<open>process_file\<close> over the file reports no update.
\<close>

theorem apply_mappings_twice:
  "(apply_mappings COLOR_MAPPINGS (apply_mappings COLOR_MAPPINGS c) = apply_mappings COLOR_MAPPINGS c
      \<longleftrightarrow> (\<forall>(hex, token)\<in>set COLOR_MAPPINGS.
             \<not> quoted_literal hex (apply_mappings COLOR_MAPPINGS c))) \<and>
   (read_result (files w file_path) = Inr c \<and>
    (\<forall>(hex, token)\<in>set COLOR_MAPPINGS. \<not> quoted_literal hex (apply_mappings COLOR_MAPPINGS c))
      \<longrightarrow> \<not> fst (process_file file_path (snd (process_file file_path w))))"
proof (intro conjI impI iffI)
  let ?r = "apply_mappings COLOR_MAPPINGS c"
  assume e: "apply_mappings COLOR_MAPPINGS ?r = ?r"
  show "\<forall>(hex, token)\<in>set COLOR_MAPPINGS. \<not> quoted_literal hex ?r"
  proof (rule ccontr)
    assume "\<not> (\<forall>(hex, token)\<in>set COLOR_MAPPINGS. \<not> quoted_literal hex ?r)"
    then have "\<exists>(hex, token)\<in>set COLOR_MAPPINGS. quoted_literal hex ?r" by auto
    moreover have "\<forall>(hex, token)\<in>set COLOR_MAPPINGS.
      CHR ''#'' \<notin> set token \<and> (\<forall>m. map lower m = map lower hex \<longrightarrow> CHR ''#'' \<in> set m)"
      using table_rule_hash by blast
    ultimately have "count_list (apply_mappings COLOR_MAPPINGS ?r) (CHR ''#'') <
        count_list ?r (CHR ''#'')"
      using apply_mappings_hash [of COLOR_MAPPINGS ?r] by blast
    with e show False by simp
  qed
next
  assume "\<forall>(hex, token)\<in>set COLOR_MAPPINGS. \<not> quoted_literal hex (apply_mappings COLOR_MAPPINGS c)"
  then show "apply_mappings COLOR_MAPPINGS (apply_mappings COLOR_MAPPINGS c) =
      apply_mappings COLOR_MAPPINGS c"
    by (rule apply_mappings_fixed)
next
  assume a: "read_result (files w file_path) = Inr c \<and>
    (\<forall>(hex, token)\<in>set COLOR_MAPPINGS. \<not> quoted_literal hex (apply_mappings COLOR_MAPPINGS c))"
  then have "apply_mappings COLOR_MAPPINGS (apply_mappings COLOR_MAPPINGS c) =
      apply_mappings COLOR_MAPPINGS c"
    by (intro apply_mappings_fixed) simp
  with a show "\<not> fst (process_file file_path (snd (process_file file_path w)))"
    by (auto simp: process_file_def write_file_def print_def Let_def split: option.splits)
qed

theorem apply_mappings_twice_witness:
  "apply_mappings COLOR_MAPPINGS (apply_mappings COLOR_MAPPINGS ''\"#1e1e1e\"'') =
     apply_mappings COLOR_MAPPINGS ''\"#1e1e1e\"'' \<and>
   \<not> fst (process_file ''a.tsx''
            (snd (process_file ''a.tsx'' \<lparr>files = writable, stdout = [], writes = []\<rparr>)))"
proof -
  have n: "\<forall>(hex, token)\<in>set COLOR_MAPPINGS.
      \<not> quoted_literal hex (apply_mappings COLOR_MAPPINGS ''\"#1e1e1e\"'')"
    unfolding apply_quoted_1e1e1e
    by (simp add: COLOR_MAPPINGS_def is_quote_def dot_def literal_then_close_def)
  have r: "read_result (files \<lparr>files = writable, stdout = [], writes = []\<rparr> ''a.tsx'') =
      Inr ''\"#1e1e1e\"''"
    by (simp add: writable_def)
  show ?thesis
    using apply_mappings_twice [of "''\"#1e1e1e\"''" "\<lparr>files = writable, stdout = [], writes = []\<rparr>"
        "''a.tsx''"] n r
    by blast
qed

end
